theory Spec2Isabelle
  imports Main "HOL-Library.Word"
begin

section \<open>Buffers, errors and the hashing capability\<close>

text \<open>
  A Node \<open>Buffer\<close> is a list of bytes. Numbers of the source are modelled as integers:
  every index the tree computes for a depth of at most 32 is far below \<open>2 ^ 53\<close>, where
  doubles are exact, and \<open>Math.floor (Math.log2 n)\<close> is the integer logarithm there.
  Fractional, infinite and NaN arguments of the callers are outside the model.
\<close>

type_synonym byte = "8 word"
type_synonym Buffer = "byte list"

datatype error =
    BadDepth
  | RootMismatch
  | TypeError
  | RangeError
  | NotFoundError
  | StoreError string

text \<open>
  Modelled from the spec: the hashing capability (\<open>hasher.ts\<close> and \<open>sha256_hasher.ts\<close>
  are imported by the source but are not part of it). It offers \<open>hash\<close> on a payload
  and \<open>compress\<close> on two digests; both are parameters of the development. The capability
  is declared on buffers only, so a call that would hand it \<open>undefined\<close> is modelled as
  the \<open>TypeError\<close> that Node raises for a missing buffer.
\<close>

record Hasher =
  hash :: "Buffer \<Rightarrow> Buffer"
  compress :: "Buffer \<Rightarrow> Buffer \<Rightarrow> Buffer"

definition MAX_DEPTH :: nat where
  "MAX_DEPTH = 32"

definition LEAF_BYTES :: nat where
  "LEAF_BYTES = 64"

definition Buffer_alloc :: "nat \<Rightarrow> Buffer" where
  "Buffer_alloc n = replicate n 0"

section \<open>LazyTree: the sparse tree engine\<close>

record LazyTree =
  hasher :: Hasher
  nodes :: "int \<rightharpoonup> Buffer"
  depth :: nat
  emptyHashes :: "nat \<rightharpoonup> Buffer"

text \<open>The loop of \<open>populateEmptyHashes\<close>: \<open>d\<close> counts up from 0 while \<open>d \<le> depth\<close>.\<close>

function populateEmptyHashes_loop :: "LazyTree \<Rightarrow> nat \<Rightarrow> Buffer \<Rightarrow> LazyTree" where
  "populateEmptyHashes_loop t d h =
     (if d \<le> LazyTree.depth t
      then populateEmptyHashes_loop
             (t\<lparr>emptyHashes := (emptyHashes t)(LazyTree.depth t - d \<mapsto> h)\<rparr>)
             (d + 1) (compress (LazyTree.hasher t) h h)
      else t)"
  by pat_completeness auto
termination
  by (relation "measure (\<lambda>(t, d, h). Suc (LazyTree.depth t) - d)") auto

definition populateEmptyHashes :: "LazyTree \<Rightarrow> LazyTree" where
  "populateEmptyHashes t =
     populateEmptyHashes_loop t 0 (hash (LazyTree.hasher t) (Buffer_alloc LEAF_BYTES))"

definition LazyTree_constructor :: "Hasher \<Rightarrow> nat \<Rightarrow> LazyTree" where
  "LazyTree_constructor H dep =
     populateEmptyHashes
       \<lparr>LazyTree.hasher = H, nodes = Map.empty, depth = dep, emptyHashes = Map.empty\<rparr>"

fun floor_log2 :: "nat \<Rightarrow> nat" where
  "floor_log2 n = (if n < 2 then 0 else 1 + floor_log2 (n div 2))"

text \<open>
  \<open>Math.floor (Math.log2 (index + 1))\<close>: NaN for a negative argument and minus infinity
  for 0, neither of which is a key of the table of empty hashes (\<open>None\<close>).
\<close>

definition calculateIndexDepth :: "int \<Rightarrow> nat option" where
  "calculateIndexDepth index =
     (if index + 1 \<le> 0 then None else Some (floor_log2 (nat (index + 1))))"

text \<open>
  \<open>this.nodes.get(index) || this.emptyHashes[depth]\<close>: a buffer is always truthy, so the
  table is read exactly when the map has no entry; \<open>None\<close> is \<open>undefined\<close>.
\<close>

definition LazyTree_get :: "LazyTree \<Rightarrow> int \<Rightarrow> Buffer option" where
  "LazyTree_get t index =
     (let dep = calculateIndexDepth index
      in case nodes t index of
           Some b \<Rightarrow> Some b
         | None \<Rightarrow> (case dep of None \<Rightarrow> None | Some d \<Rightarrow> emptyHashes t d))"

definition LazyTree_getRoot :: "LazyTree \<Rightarrow> Buffer option" where
  "LazyTree_getRoot t = LazyTree_get t 0"

text \<open>
  The expression \<open>parentIdx % 2 === 0 ? (parentIdx - 2) / 2 : (parentIdx - 1) / 2\<close> of
  both loops; it is evaluated on non-negative numbers only, where both divisions are exact.
\<close>

definition parentIdx_next :: "int \<Rightarrow> int" where
  "parentIdx_next parentIdx =
     (if parentIdx mod 2 = 0 then (parentIdx - 2) div 2 else (parentIdx - 1) div 2)"

text \<open>
  The loop of \<open>set\<close>. The map is mutated in place, so the tree reached so far is returned
  also when the hasher is handed \<open>undefined\<close> and the call throws.
\<close>

function set_loop :: "LazyTree \<Rightarrow> int \<Rightarrow> (error + unit) \<times> LazyTree" where
  "set_loop t parentIdx =
     (if parentIdx \<ge> 0
      then (let p = parentIdx_next parentIdx
            in if p < 0 then (Inr (), t)
               else (case (LazyTree_get t (p * 2 + 1), LazyTree_get t (p * 2 + 2)) of
                       (Some left, Some right) \<Rightarrow>
                         set_loop (t\<lparr>nodes := (nodes t)(p \<mapsto> compress (LazyTree.hasher t) left right)\<rparr>) p
                     | _ \<Rightarrow> (Inl TypeError, t)))
      else (Inr (), t))"
  by pat_completeness auto
termination
proof (relation "measure (\<lambda>(t, p). nat p)")
  show "wf (measure (\<lambda>(t, p). nat p))"
    by simp
next
  fix t :: LazyTree and parentIdx x :: int
  assume "0 \<le> parentIdx" and "x = parentIdx_next parentIdx" and "\<not> x < 0"
  then have "0 \<le> x \<and> x < parentIdx"
    unfolding parentIdx_next_def by presburger
  then show "((t\<lparr>nodes := (nodes t)(x \<mapsto> compress (LazyTree.hasher t) l r)\<rparr>, x), (t, parentIdx))
      \<in> measure (\<lambda>(t, p). nat p)" for l r
    by simp
qed

definition LazyTree_set :: "LazyTree \<Rightarrow> int \<Rightarrow> Buffer \<Rightarrow> (error + unit) \<times> LazyTree" where
  "LazyTree_set t index h = set_loop (t\<lparr>nodes := (nodes t)(index \<mapsto> h)\<rparr>) index"

function getPath_loop ::
  "LazyTree \<Rightarrow> int \<Rightarrow> (Buffer option \<times> Buffer option) list \<Rightarrow> (Buffer option \<times> Buffer option) list"
where
  "getPath_loop t parentIdx path =
     (if parentIdx \<ge> 0
      then (let p = parentIdx_next parentIdx
            in if p < 0 then path
               else getPath_loop t p
                      (path @ [(LazyTree_get t (p * 2 + 1), LazyTree_get t (p * 2 + 2))]))
      else path)"
  by pat_completeness auto
termination
proof (relation "measure (\<lambda>(t, p, path). nat p)")
  show "wf (measure (\<lambda>(t, p, path). nat p))"
    by simp
next
  fix t :: LazyTree and parentIdx x :: int
    and path :: "(Buffer option \<times> Buffer option) list"
  assume "0 \<le> parentIdx" and "x = parentIdx_next parentIdx" and "\<not> x < 0"
  then have "0 \<le> x \<and> x < parentIdx"
    unfolding parentIdx_next_def by presburger
  then show "((t, x, path @ [(LazyTree_get t (x * 2 + 1), LazyTree_get t (x * 2 + 2))]),
       (t, parentIdx, path)) \<in> measure (\<lambda>(t, p, path). nat p)"
    by simp
qed

definition LazyTree_getPath :: "LazyTree \<Rightarrow> int \<Rightarrow> (Buffer option \<times> Buffer option) list" where
  "LazyTree_getPath t index = getPath_loop t index []"

section \<open>Library operations of the platform\<close>

text \<open>
  \<open>Buffer.copy\<close> onto the start of the target, \<open>writeUInt32LE\<close>, \<open>readUInt32LE\<close>
  (both raise a RangeError outside the buffer or outside 32 bits), \<open>slice\<close>,
  \<open>toString('hex')\<close>, \<open>Buffer.from(s, 'hex')\<close> (which stops at the first pair that is
  not hexadecimal), \<open>parseInt\<close> without radix and \<open>Number.toString\<close> on an integer.
\<close>

definition Buffer_copy :: "Buffer \<Rightarrow> Buffer \<Rightarrow> Buffer" where
  "Buffer_copy src target = take (length target) src @ drop (length src) target"

definition writeUInt32LE :: "Buffer \<Rightarrow> nat \<Rightarrow> nat \<Rightarrow> error + Buffer" where
  "writeUInt32LE buf v off =
     (if v \<ge> 2 ^ 32 \<or> off + 4 > length buf then Inl RangeError
      else Inr (take off buf
                @ [of_nat (v mod 256), of_nat (v div 256 mod 256),
                   of_nat (v div 65536 mod 256), of_nat (v div 16777216 mod 256)]
                @ drop (off + 4) buf))"

definition readUInt32LE :: "Buffer \<Rightarrow> nat \<Rightarrow> error + nat" where
  "readUInt32LE buf off =
     (if off + 4 > length buf then Inl RangeError
      else Inr (unat (buf ! off) + 256 * unat (buf ! (off + 1))
                + 65536 * unat (buf ! (off + 2)) + 16777216 * unat (buf ! (off + 3))))"

definition Buffer_slice :: "Buffer \<Rightarrow> nat \<Rightarrow> nat \<Rightarrow> Buffer" where
  "Buffer_slice buf start end = drop start (take end buf)"

definition hexDigit :: "nat \<Rightarrow> char" where
  "hexDigit n = ''0123456789abcdef'' ! (n mod 16)"

definition toString_hex :: "Buffer \<Rightarrow> string" where
  "toString_hex buf = concat (map (\<lambda>b. [hexDigit (unat b div 16), hexDigit (unat b mod 16)]) buf)"

definition digitValue :: "char \<Rightarrow> nat option" where
  "digitValue c =
     (let k = (of_char c :: nat)
      in if 48 \<le> k \<and> k \<le> 57 then Some (k - 48)
         else if 97 \<le> k \<and> k \<le> 122 then Some (k - 87)
         else if 65 \<le> k \<and> k \<le> 90 then Some (k - 55)
         else None)"

definition radixDigit :: "nat \<Rightarrow> char \<Rightarrow> nat option" where
  "radixDigit radix c =
     (case digitValue c of None \<Rightarrow> None | Some v \<Rightarrow> if v < radix then Some v else None)"

fun Buffer_from_hex :: "string \<Rightarrow> Buffer" where
  "Buffer_from_hex (a # b # rest) =
     (case (radixDigit 16 a, radixDigit 16 b) of
        (Some x, Some y) \<Rightarrow> of_nat (16 * x + y) # Buffer_from_hex rest
      | _ \<Rightarrow> [])"
| "Buffer_from_hex _ = []"

definition isWhiteSpace :: "char \<Rightarrow> bool" where
  "isWhiteSpace c = (let k = (of_char c :: nat) in k = 32 \<or> (9 \<le> k \<and> k \<le> 13))"

text \<open>\<open>None\<close> is NaN.\<close>

definition parseInt :: "string \<Rightarrow> int option" where
  "parseInt s =
     (let s1 = dropWhile isWhiteSpace s;
          neg = (take 1 s1 = ''-'');
          s2 = (if take 1 s1 = ''-'' \<or> take 1 s1 = ''+'' then drop 1 s1 else s1);
          hex = (take 2 s2 = ''0x'' \<or> take 2 s2 = ''0X'');
          radix = (if hex then 16 else 10);
          s3 = (if hex then drop 2 s2 else s2);
          ds = List.map_filter (radixDigit radix) (takeWhile (\<lambda>c. radixDigit radix c \<noteq> None) s3)
      in if ds = [] then None
         else Some ((if neg then - 1 else 1) * int (foldl (\<lambda>a v. a * radix + v) 0 ds)))"

fun decimalDigits :: "nat \<Rightarrow> string" where
  "decimalDigits n =
     (if n < 10 then [''0123456789'' ! n]
      else decimalDigits (n div 10) @ [''0123456789'' ! (n mod 10)])"

definition Number_toString :: "int \<Rightarrow> string" where
  "Number_toString i =
     (if i < 0 then CHR ''-'' # decimalDigits (nat (- i)) else decimalDigits (nat i))"

section \<open>The durable store\<close>

text \<open>
  Modelled from the spec: the durable key-value store (levelup and subleveldown are
  imported by the source but are not part of it). It has \<open>get\<close>, which fails with
  \<open>NotFoundError\<close> on an absent key, \<open>put\<close>, and a full scan of a namespace. There are
  two logical namespaces: the metadata records keyed by tree name, and one namespace of
  leaf records per tree name, kept in the order in which a scan yields them. Every store
  operation may fail: \<open>faults\<close> scripts the outcome of the operations to come, one entry
  per operation (\<open>Some msg\<close> fails with an I/O error, \<open>None\<close> or an exhausted script lets
  the operation through). A failed operation leaves the records as they were.
\<close>

record LevelUp =
  records :: "string \<rightharpoonup> Buffer"
  sublevels :: "string \<Rightarrow> (string \<times> string) list"
  faults :: "string option list"

definition next_fault :: "LevelUp \<Rightarrow> string option \<times> LevelUp" where
  "next_fault db =
     (case faults db of
        [] \<Rightarrow> (None, db)
      | f # fs \<Rightarrow> (f, db\<lparr>faults := fs\<rparr>))"

definition db_get :: "LevelUp \<Rightarrow> string \<Rightarrow> (error + Buffer) \<times> LevelUp" where
  "db_get db key =
     (case next_fault db of
        (Some msg, db') \<Rightarrow> (Inl (StoreError msg), db')
      | (None, db') \<Rightarrow>
          (case records db' key of
             None \<Rightarrow> (Inl NotFoundError, db')
           | Some v \<Rightarrow> (Inr v, db')))"

definition db_put :: "LevelUp \<Rightarrow> string \<Rightarrow> Buffer \<Rightarrow> (error + unit) \<times> LevelUp" where
  "db_put db key v =
     (case next_fault db of
        (Some msg, db') \<Rightarrow> (Inl (StoreError msg), db')
      | (None, db') \<Rightarrow> (Inr (), db'\<lparr>records := (records db')(key \<mapsto> v)\<rparr>))"

fun alist_put :: "string \<Rightarrow> string \<Rightarrow> (string \<times> string) list \<Rightarrow> (string \<times> string) list" where
  "alist_put k v [] = [(k, v)]"
| "alist_put k v ((k', v') # es) = (if k = k' then (k, v) # es else (k', v') # alist_put k v es)"

definition sublevel_put ::
  "LevelUp \<Rightarrow> string \<Rightarrow> string \<Rightarrow> string \<Rightarrow> (error + unit) \<times> LevelUp" where
  "sublevel_put db ns key v =
     (case next_fault db of
        (Some msg, db') \<Rightarrow> (Inl (StoreError msg), db')
      | (None, db') \<Rightarrow>
          (Inr (), db'\<lparr>sublevels := (sublevels db')(ns := alist_put key v (sublevels db' ns))\<rparr>))"

definition sublevel_createReadStream ::
  "LevelUp \<Rightarrow> string \<Rightarrow> (error + (string \<times> string) list) \<times> LevelUp" where
  "sublevel_createReadStream db ns =
     (case next_fault db of
        (Some msg, db') \<Rightarrow> (Inl (StoreError msg), db')
      | (None, db') \<Rightarrow> (Inr (sublevels db' ns), db'))"

section \<open>MerkleTree: the persistent tree\<close>

text \<open>
  The fields \<open>db\<close> and \<open>elementsDb\<close> of the class are handles on the store, which is
  threaded through the operations as a value of its own; \<open>elementsDb\<close> is the namespace
  of the tree's name.
\<close>

record MerkleTree =
  hasher :: Hasher
  name :: string
  depth :: nat
  tree :: LazyTree

definition MerkleTree_constructor :: "Hasher \<Rightarrow> string \<Rightarrow> nat \<Rightarrow> error + MerkleTree" where
  "MerkleTree_constructor H nm dep =
     (if \<not> (dep \<ge> 1 \<and> dep \<le> MAX_DEPTH) then Inl BadDepth
      else Inr \<lparr>MerkleTree.hasher = H, name = nm, depth = dep,
                tree = LazyTree_constructor H dep\<rparr>)"

definition MerkleTree_getRoot :: "MerkleTree \<Rightarrow> Buffer option" where
  "MerkleTree_getRoot m = LazyTree_getRoot (tree m)"

definition elementTreeIndex :: "MerkleTree \<Rightarrow> int \<Rightarrow> int" where
  "elementTreeIndex m index = index + 2 ^ MerkleTree.depth m - 1"

text \<open>
  \<open>writeMetaData\<close> is only ever called without a batch, so the model is its direct
  \<open>put\<close>. Copying from an undefined root would raise a TypeError.
\<close>

definition writeMetaData :: "MerkleTree \<Rightarrow> LevelUp \<Rightarrow> (error + unit) \<times> LevelUp" where
  "writeMetaData m db =
     (case MerkleTree_getRoot m of
        None \<Rightarrow> (Inl TypeError, db)
      | Some root \<Rightarrow>
          (case writeUInt32LE (Buffer_copy root (Buffer_alloc 40)) (MerkleTree.depth m) 32 of
             Inl e \<Rightarrow> (Inl e, db)
           | Inr data \<Rightarrow> db_put db (name m) data))"

text \<open>
  The handler of the stream's \<open>data\<close> events, one record after the other. A key that
  \<open>parseInt\<close> turns into NaN puts its value under the key NaN, which no lookup by a
  number reads, and leaves every numbered node as it was.
\<close>

fun restore_records :: "MerkleTree \<Rightarrow> (string \<times> string) list \<Rightarrow> error + MerkleTree" where
  "restore_records m [] = Inr m"
| "restore_records m ((key, v) # es) =
     (case parseInt key of
        None \<Rightarrow> restore_records m es
      | Some index \<Rightarrow>
          (case LazyTree_set (tree m) (elementTreeIndex m index) (Buffer_from_hex v) of
             (Inl e, t') \<Rightarrow> Inl e
           | (Inr u, t') \<Rightarrow> restore_records (m\<lparr>tree := t'\<rparr>) es))"

definition restoreElements :: "MerkleTree \<Rightarrow> LevelUp \<Rightarrow> (error + MerkleTree) \<times> LevelUp" where
  "restoreElements m db =
     (case sublevel_createReadStream db (name m) of
        (Inl e, db') \<Rightarrow> (Inl e, db')
      | (Inr es, db') \<Rightarrow> (restore_records m es, db'))"

text \<open>
  \<open>MerkleTree.new\<close>. The depth argument is optional and defaults to \<open>MAX_DEPTH\<close>. The
  handler \<open>.catch(() => {})\<close> turns every rejection of the metadata \<open>get\<close> into
  \<open>undefined\<close>.
\<close>

definition MerkleTree_new ::
  "Hasher \<Rightarrow> LevelUp \<Rightarrow> string \<Rightarrow> nat option \<Rightarrow> (error + MerkleTree) \<times> LevelUp" where
  "MerkleTree_new H db nm depth_arg =
     (let dep = (case depth_arg of None \<Rightarrow> MAX_DEPTH | Some d \<Rightarrow> d);
          (got, db1) = db_get db nm;
          meta = (case got of Inl e \<Rightarrow> None | Inr b \<Rightarrow> Some b)
      in case meta of
           Some meta \<Rightarrow>
             (let root = Buffer_slice meta 0 32
              in case readUInt32LE meta 32 of
                   Inl e \<Rightarrow> (Inl e, db1)
                 | Inr dep \<Rightarrow>
                     (case MerkleTree_constructor H nm dep of
                        Inl e \<Rightarrow> (Inl e, db1)
                      | Inr m \<Rightarrow>
                          (case restoreElements m db1 of
                             (Inl e, db2) \<Rightarrow> (Inl e, db2)
                           | (Inr m', db2) \<Rightarrow>
                               (case MerkleTree_getRoot m' of
                                  None \<Rightarrow> (Inl TypeError, db2)
                                | Some r \<Rightarrow>
                                    if r \<noteq> root then (Inl RootMismatch, db2)
                                    else (Inr m', db2)))))
         | None \<Rightarrow>
             (case MerkleTree_constructor H nm dep of
                Inl e \<Rightarrow> (Inl e, db1)
              | Inr m \<Rightarrow>
                  (case writeMetaData m db1 of
                     (Inl e, db2) \<Rightarrow> (Inl e, db2)
                   | (Inr u, db2) \<Rightarrow> (Inr m, db2))))"

definition MerkleTree_getHashPath ::
  "MerkleTree \<Rightarrow> int \<Rightarrow> (Buffer option \<times> Buffer option) list" where
  "MerkleTree_getHashPath m index = LazyTree_getPath (tree m) (elementTreeIndex m index)"

text \<open>
  \<open>updateElement\<close> returns its result, the handle as the call leaves it (the engine is
  mutated in place before the first write) and the store.
\<close>

definition updateElement ::
  "MerkleTree \<Rightarrow> LevelUp \<Rightarrow> int \<Rightarrow> Buffer \<Rightarrow> (error + Buffer option) \<times> MerkleTree \<times> LevelUp" where
  "updateElement m db index v =
     (let h = hash (MerkleTree.hasher m) v;
          (r, t') = LazyTree_set (tree m) (elementTreeIndex m index) h;
          m' = m\<lparr>tree := t'\<rparr>
      in case r of
           Inl e \<Rightarrow> (Inl e, m', db)
         | Inr u \<Rightarrow>
             (case sublevel_put db (name m) (Number_toString index) (toString_hex h) of
                (Inl e, db1) \<Rightarrow> (Inl e, m', db1)
              | (Inr u1, db1) \<Rightarrow>
                  (case writeMetaData m' db1 of
                     (Inl e, db2) \<Rightarrow> (Inl e, m', db2)
                   | (Inr u2, db2) \<Rightarrow> (Inr (MerkleTree_getRoot m'), m', db2))))"

section \<open>Notions used to state and prove the properties\<close>

text \<open>
  The chain of nodes that both loops visit from a node index: its parent, grandparent
  and so on up to the root, in that order.
\<close>

function ancestors :: "int \<Rightarrow> int list" where
  "ancestors p =
     (if p \<ge> 0
      then (let q = parentIdx_next p in if q < 0 then [] else q # ancestors q)
      else [])"
  by pat_completeness auto
termination
proof (relation "measure nat")
  show "wf (measure nat)"
    by simp
next
  fix p x :: int
  assume "0 \<le> p" and "x = parentIdx_next p" and "\<not> x < 0"
  then have "0 \<le> x \<and> x < p"
    unfolding parentIdx_next_def by presburger
  then show "(x, p) \<in> measure nat"
    by simp
qed

text \<open>
  A node is consistent when both its children resolve to a digest and its explicit entry
  is their compression.
\<close>

definition node_consistent :: "LazyTree \<Rightarrow> int \<Rightarrow> bool" where
  "node_consistent t p \<longleftrightarrow>
     (case (LazyTree_get t (p * 2 + 1), LazyTree_get t (p * 2 + 2)) of
        (Some l, Some r) \<Rightarrow> nodes t p = Some (compress (LazyTree.hasher t) l r)
      | _ \<Rightarrow> False)"

text \<open>
  The table of empty-subtree digests as the specification words it, for a tree of depth
  \<open>D\<close>: the entry of depth \<open>D\<close> is the hash of 64 zero bytes, and the entry of a
  depth \<open>d\<close> below \<open>D\<close> compresses the entry of depth \<open>d + 1\<close> with itself.
\<close>

function emptySubtree :: "Hasher \<Rightarrow> nat \<Rightarrow> nat \<Rightarrow> Buffer" where
  "emptySubtree H D d =
     (if d < D then (let e = emptySubtree H D (d + 1) in compress H e e)
      else hash H (Buffer_alloc LEAF_BYTES))"
  by pat_completeness auto
termination
  by (relation "measure (\<lambda>(H, D, d). D - d)") auto

text \<open>
  What the constructor establishes and no operation changes: the table of the engine is
  the one its constructor computed for its hasher and depth.
\<close>

definition LazyTree_inv :: "LazyTree \<Rightarrow> bool" where
  "LazyTree_inv t \<longleftrightarrow>
     emptyHashes t = emptyHashes (LazyTree_constructor (LazyTree.hasher t) (LazyTree.depth t))"

text \<open>
  What a verifier does with a hash path: starting from a digest at a node index, the
  digest must be the left entry of the next pair when the index is odd (a left child)
  and the right entry when it is even; the pair is compressed and the walk goes on from
  the parent. The digest left at the end of the path is the candidate root.
\<close>

fun reconstructRoot ::
  "Hasher \<Rightarrow> int \<Rightarrow> Buffer \<Rightarrow> (Buffer option \<times> Buffer option) list \<Rightarrow> Buffer option" where
  "reconstructRoot H i cur [] = Some cur"
| "reconstructRoot H i cur ((Some l, Some r) # ps) =
     (if (if i mod 2 = 1 then l else r) = cur
      then reconstructRoot H (parentIdx_next i) (compress H l r) ps
      else None)"
| "reconstructRoot H i cur (pr # ps) = None"

text \<open>
  The state of a handle that the constructor of \<open>MerkleTree\<close> establishes: the depth
  passed the check, and the engine was built for the handle's hasher and depth. Every
  handle that \<open>MerkleTree.new\<close> returns is in this state and \<open>updateElement\<close> keeps
  it, as is proved below.
\<close>

definition MerkleTree_inv :: "MerkleTree \<Rightarrow> bool" where
  "MerkleTree_inv m \<longleftrightarrow>
     1 \<le> MerkleTree.depth m \<and> MerkleTree.depth m \<le> MAX_DEPTH
     \<and> LazyTree.depth (tree m) = MerkleTree.depth m
     \<and> LazyTree.hasher (tree m) = MerkleTree.hasher m
     \<and> LazyTree_inv (tree m)"

text \<open>A sequence of calls of \<open>set\<close>, each on the engine the one before left.\<close>

fun set_all :: "LazyTree \<Rightarrow> (int \<times> Buffer) list \<Rightarrow> LazyTree" where
  "set_all t [] = t"
| "set_all t ((i, h) # ws) = set_all (snd (LazyTree_set t i h)) ws"

text \<open>
  The leaf records of a scan as the calls of \<open>set\<close> that the restore makes for them:
  the node index of the parsed key with the decoded digest, a record whose key is not a
  number left out.
\<close>

definition replayed :: "MerkleTree \<Rightarrow> (string \<times> string) list \<Rightarrow> (int \<times> Buffer) list" where
  "replayed m es =
     List.map_filter
       (\<lambda>(key, v). map_option (\<lambda>index. (elementTreeIndex m index, Buffer_from_hex v)) (parseInt key))
       es"

section \<open>A small instance\<close>

text \<open>
  A toy hasher with 32-byte digests (\<open>hash\<close> keeps the first 32 bytes of the payload,
  \<open>compress\<close> combines two digests bytewise), a handle of depth 2 on a fresh engine,
  an empty store with a given script of faults, and a payload of 64 equal bytes. The
  general theorems are instantiated on them.
\<close>

definition demo_hasher :: Hasher where
  "demo_hasher =
     \<lparr>hash = (\<lambda>v. take 32 v),
      compress = (\<lambda>l r. map (\<lambda>(a, b). 3 * a + b + 1) (zip l r))\<rparr>"

definition demo_tree :: MerkleTree where
  "demo_tree =
     \<lparr>MerkleTree.hasher = demo_hasher, name = ''t'', depth = 2,
      tree = LazyTree_constructor demo_hasher 2\<rparr>"

definition demo_store :: "string option list \<Rightarrow> LevelUp" where
  "demo_store fs = \<lparr>records = Map.empty, sublevels = (\<lambda>ns. []), faults = fs\<rparr>"

definition demo_payload :: "byte \<Rightarrow> Buffer" where
  "demo_payload b = replicate 64 b"

text \<open>
  The store of a tree named \<open>t\<close> of depth 2 as \<open>writeMetaData\<close> and
  \<open>updateElement\<close> leave it: the metadata record of a given root and the given leaf
  records.
\<close>

definition demo_saved :: "Buffer \<Rightarrow> (string \<times> string) list \<Rightarrow> string option list \<Rightarrow> LevelUp" where
  "demo_saved root es fs =
     \<lparr>records = [''t'' \<mapsto> root @ [2, 0, 0, 0, 0, 0, 0, 0]],
      sublevels = (\<lambda>ns. if ns = ''t'' then es else []),
      faults = fs\<rparr>"

section \<open>Properties of the engine\<close>

declare ancestors.simps [simp del] set_loop.simps [simp del] getPath_loop.simps [simp del]
  populateEmptyHashes_loop.simps [simp del] floor_log2.simps [simp del]
  emptySubtree.simps [simp del]

lemma parentIdx_next_alt: "parentIdx_next p = (p + 1) div 2 - 1"
  unfolding parentIdx_next_def by presburger

lemma parentIdx_next_less: "0 \<le> p \<Longrightarrow> parentIdx_next p < p"
  unfolding parentIdx_next_def by presburger

lemma parentIdx_next_child [simp]:
  "parentIdx_next (a * 2 + 1) = a" "parentIdx_next (a * 2 + 2) = a"
  unfolding parentIdx_next_def by presburger+

lemma ancestors_step:
  "0 \<le> p \<Longrightarrow> 0 \<le> parentIdx_next p \<Longrightarrow> ancestors p = parentIdx_next p # ancestors (parentIdx_next p)"
  by (subst ancestors.simps) (simp add: Let_def)

lemma ancestors_stop: "p < 0 \<or> parentIdx_next p < 0 \<Longrightarrow> ancestors p = []"
  by (subst ancestors.simps) (auto simp: Let_def)

lemma ancestors_bounds: "a \<in> set (ancestors p) \<Longrightarrow> 0 \<le> a \<and> a < p"
proof (induction p rule: ancestors.induct)
  case (1 p)
  show ?case
  proof (cases "0 \<le> p \<and> 0 \<le> parentIdx_next p")
    case True
    then have eq: "ancestors p = parentIdx_next p # ancestors (parentIdx_next p)"
      by (simp add: ancestors_step)
    have lt: "parentIdx_next p < p"
      using True by (simp add: parentIdx_next_less)
    from "1.prems" eq have "a = parentIdx_next p \<or> a \<in> set (ancestors (parentIdx_next p))"
      by simp
    then show ?thesis
    proof
      assume "a = parentIdx_next p"
      with True lt show ?thesis by simp
    next
      assume "a \<in> set (ancestors (parentIdx_next p))"
      with "1.IH" [of "parentIdx_next p"] True have "0 \<le> a \<and> a < parentIdx_next p"
        by simp
      with lt show ?thesis by simp
    qed
  next
    case False
    then have "ancestors p = []"
      by (intro ancestors_stop) auto
    with "1.prems" show ?thesis by simp
  qed
qed

lemma ancestors_distinct: "distinct (ancestors p)"
proof (induction p rule: ancestors.induct)
  case (1 p)
  show ?case
  proof (cases "0 \<le> p \<and> 0 \<le> parentIdx_next p")
    case True
    then have eq: "ancestors p = parentIdx_next p # ancestors (parentIdx_next p)"
      by (simp add: ancestors_step)
    have "parentIdx_next p \<notin> set (ancestors (parentIdx_next p))"
      using ancestors_bounds [of "parentIdx_next p" "parentIdx_next p"] by auto
    with "1.IH" [of "parentIdx_next p"] True eq show ?thesis
      by simp
  next
    case False
    then have "ancestors p = []"
      by (intro ancestors_stop) auto
    then show ?thesis by simp
  qed
qed

lemma ancestors_parent_self: "0 < p \<Longrightarrow> parentIdx_next p \<in> set (ancestors p)"
proof -
  assume "0 < p"
  then have "0 \<le> p \<and> 0 \<le> parentIdx_next p"
    unfolding parentIdx_next_def by presburger
  then show ?thesis
    by (simp add: ancestors_step)
qed

lemma ancestors_parent_closed:
  "a \<in> set (ancestors p) \<Longrightarrow> 0 < a \<Longrightarrow> parentIdx_next a \<in> set (ancestors p)"
proof (induction p rule: ancestors.induct)
  case (1 p)
  show ?case
  proof (cases "0 \<le> p \<and> 0 \<le> parentIdx_next p")
    case True
    then have eq: "ancestors p = parentIdx_next p # ancestors (parentIdx_next p)"
      by (simp add: ancestors_step)
    from "1.prems" eq have "a = parentIdx_next p \<or> a \<in> set (ancestors (parentIdx_next p))"
      by simp
    then show ?thesis
    proof
      assume "a = parentIdx_next p"
      with "1.prems" ancestors_parent_self [of a] eq show ?thesis by simp
    next
      assume "a \<in> set (ancestors (parentIdx_next p))"
      with "1.IH" [of "parentIdx_next p"] True "1.prems" eq show ?thesis
        by simp
    qed
  next
    case False
    then have "ancestors p = []"
      by (intro ancestors_stop) auto
    with "1.prems" show ?thesis by simp
  qed
qed

lemma floor_log2_double: "0 < n \<Longrightarrow> floor_log2 (2 * n) = Suc (floor_log2 n)"
  by (subst floor_log2.simps) simp

lemma floor_log2_double1: "0 < n \<Longrightarrow> floor_log2 (2 * n + 1) = Suc (floor_log2 n)"
  by (subst floor_log2.simps) simp

lemma floor_log2_half: "2 \<le> n \<Longrightarrow> floor_log2 n = Suc (floor_log2 (n div 2))"
  by (subst floor_log2.simps) simp

lemma floor_log2_bounds: "0 < n \<Longrightarrow> 2 ^ floor_log2 n \<le> n \<and> n < 2 ^ Suc (floor_log2 n)"
proof (induction n rule: floor_log2.induct)
  case (1 n)
  show ?case
  proof (cases "n < 2")
    case True
    with "1.prems" have "n = 1" by simp
    then show ?thesis by (simp add: floor_log2.simps)
  next
    case False
    then have "0 < n div 2" by simp
    with "1.IH" False have ih: "2 ^ floor_log2 (n div 2) \<le> n div 2 \<and> n div 2 < 2 ^ Suc (floor_log2 (n div 2))"
      by simp
    have eq: "floor_log2 n = Suc (floor_log2 (n div 2))"
      using False by (simp add: floor_log2_half)
    from ih show ?thesis
      unfolding eq by (simp; linarith)
  qed
qed

lemma floor_log2_unique: "2 ^ k \<le> n \<Longrightarrow> n < 2 ^ Suc k \<Longrightarrow> floor_log2 n = k"
proof -
  assume a: "2 ^ k \<le> n" and b: "n < 2 ^ Suc k"
  then have pos: "0 < n"
    by (metis gr0I not_less power_eq_0_iff zero_neq_numeral le_zero_eq)
  from floor_log2_bounds [OF pos] have c: "2 ^ floor_log2 n \<le> n" and d: "n < 2 ^ Suc (floor_log2 n)"
    by simp_all
  have "(2::nat) ^ k < 2 ^ Suc (floor_log2 n)" using a d by linarith
  then have "k < Suc (floor_log2 n)" by (simp only: power_strict_increasing_iff one_less_numeral_iff semiring_norm)
  moreover have "(2::nat) ^ floor_log2 n < 2 ^ Suc k" using c b by linarith
  then have "floor_log2 n < Suc k" by (simp only: power_strict_increasing_iff one_less_numeral_iff semiring_norm)
  ultimately show ?thesis by simp
qed

lemma ancestors_length: "0 \<le> p \<Longrightarrow> length (ancestors p) = floor_log2 (nat (p + 1))"
proof (induction p rule: ancestors.induct)
  case (1 p)
  show ?case
  proof (cases "0 \<le> parentIdx_next p")
    case True
    with "1.prems" have eq: "ancestors p = parentIdx_next p # ancestors (parentIdx_next p)"
      by (simp add: ancestors_step)
    from True have p2: "2 \<le> nat (p + 1)"
      unfolding parentIdx_next_alt by linarith
    have "nat (parentIdx_next p + 1) = nat (p + 1) div 2"
      using "1.prems" unfolding parentIdx_next_alt
      by (simp add: nat_div_distrib)
    with "1.IH" [of "parentIdx_next p"] True "1.prems" eq floor_log2_half [OF p2]
    show ?thesis by simp
  next
    case False
    then have e: "ancestors p = []"
      by (intro ancestors_stop) auto
    from False "1.prems" have "p = 0"
      unfolding parentIdx_next_alt by linarith
    with e show ?thesis by (simp add: floor_log2.simps)
  qed
qed

lemma emptySubtree_leaf: "emptySubtree H D D = hash H (Buffer_alloc LEAF_BYTES)"
  by (subst emptySubtree.simps) simp

lemma emptySubtree_node:
  "d < D \<Longrightarrow> emptySubtree H D d = compress H (emptySubtree H D (Suc d)) (emptySubtree H D (Suc d))"
  by (subst emptySubtree.simps) (simp add: Let_def)

lemma populateEmptyHashes_loop_table:
  "(d \<le> LazyTree.depth t \<longrightarrow> h = emptySubtree (LazyTree.hasher t) (LazyTree.depth t) (LazyTree.depth t - d)) \<Longrightarrow>
   populateEmptyHashes_loop t d h =
     t\<lparr>emptyHashes := (\<lambda>k. if d \<le> LazyTree.depth t \<and> k \<le> LazyTree.depth t - d
                           then Some (emptySubtree (LazyTree.hasher t) (LazyTree.depth t) k)
                           else emptyHashes t k)\<rparr>"
proof (induction t d h rule: populateEmptyHashes_loop.induct)
  case (1 t d h)
  let ?D = "LazyTree.depth t" and ?H = "LazyTree.hasher t"
  show ?case
  proof (cases "d \<le> ?D")
    case False
    then show ?thesis
      by (subst populateEmptyHashes_loop.simps) simp
  next
    case True
    let ?t1 = "t\<lparr>emptyHashes := (emptyHashes t)(?D - d \<mapsto> h)\<rparr>"
    from True "1.prems" have h: "h = emptySubtree ?H ?D (?D - d)"
      by simp
    have next_h: "d + 1 \<le> ?D \<longrightarrow> compress ?H h h = emptySubtree ?H ?D (?D - (d + 1))"
    proof
      assume "d + 1 \<le> ?D"
      then have "?D - (d + 1) < ?D" and "Suc (?D - (d + 1)) = ?D - d"
        by simp_all
      then show "compress ?H h h = emptySubtree ?H ?D (?D - (d + 1))"
        using emptySubtree_node [of "?D - (d + 1)" ?D ?H] h by simp
    qed
    have step: "populateEmptyHashes_loop t d h = populateEmptyHashes_loop ?t1 (d + 1) (compress ?H h h)"
      using True by (subst populateEmptyHashes_loop.simps) simp
    have ih: "populateEmptyHashes_loop ?t1 (d + 1) (compress ?H h h) =
        ?t1\<lparr>emptyHashes := (\<lambda>k. if d + 1 \<le> ?D \<and> k \<le> ?D - (d + 1)
                           then Some (emptySubtree ?H ?D k)
                           else emptyHashes ?t1 k)\<rparr>"
      using "1.IH" [OF True] next_h by (simp cong: if_cong)
    have "(\<lambda>k. if d + 1 \<le> ?D \<and> k \<le> ?D - (d + 1) then Some (emptySubtree ?H ?D k)
                else emptyHashes ?t1 k) =
          (\<lambda>k. if d \<le> ?D \<and> k \<le> ?D - d then Some (emptySubtree ?H ?D k) else emptyHashes t k)"
    proof
      fix k
      show "(if d + 1 \<le> ?D \<and> k \<le> ?D - (d + 1) then Some (emptySubtree ?H ?D k)
                else emptyHashes ?t1 k) =
          (if d \<le> ?D \<and> k \<le> ?D - d then Some (emptySubtree ?H ?D k) else emptyHashes t k)"
        using True h by (cases "k = ?D - d") auto
    qed
    with step ih show ?thesis
      by simp
  qed
qed

lemma LazyTree_constructor_eq:
  "LazyTree_constructor H D =
     \<lparr>LazyTree.hasher = H, nodes = Map.empty, depth = D,
      emptyHashes = (\<lambda>k. if k \<le> D then Some (emptySubtree H D k) else None)\<rparr>"
  unfolding LazyTree_constructor_def populateEmptyHashes_def
  by (subst populateEmptyHashes_loop_table) (simp_all add: emptySubtree_leaf cong: if_cong)

lemma LazyTree_inv_constructor: "LazyTree_inv (LazyTree_constructor H D)"
  by (simp add: LazyTree_inv_def LazyTree_constructor_eq)

lemma LazyTree_inv_nodes [simp]: "LazyTree_inv (t\<lparr>nodes := n\<rparr>) = LazyTree_inv t"
  by (simp add: LazyTree_inv_def)

lemma LazyTree_inv_table:
  "LazyTree_inv t \<Longrightarrow>
   emptyHashes t k = (if k \<le> LazyTree.depth t
       then Some (emptySubtree (LazyTree.hasher t) (LazyTree.depth t) k) else None)"
  by (simp add: LazyTree_inv_def LazyTree_constructor_eq)

lemma LazyTree_get_defined:
  assumes "LazyTree_inv t" and "0 \<le> i" and "floor_log2 (nat (i + 1)) \<le> LazyTree.depth t"
  shows "\<exists>b. LazyTree_get t i = Some b"
  using assms
  by (auto simp: LazyTree_get_def calculateIndexDepth_def LazyTree_inv_table split: option.splits)

lemma LazyTree_get_cong:
  "nodes t i = nodes t' i \<Longrightarrow> emptyHashes t = emptyHashes t' \<Longrightarrow> LazyTree_get t i = LazyTree_get t' i"
  by (simp add: LazyTree_get_def split: option.splits)

lemma child_depth:
  assumes "0 \<le> a"
  shows "floor_log2 (nat (a * 2 + 1 + 1)) = Suc (floor_log2 (nat (a + 1)))"
    and "floor_log2 (nat (a * 2 + 2 + 1)) = Suc (floor_log2 (nat (a + 1)))"
proof -
  from assms have "nat (a * 2 + 1 + 1) = 2 * nat (a + 1)" and "nat (a * 2 + 2 + 1) = 2 * nat (a + 1) + 1"
    and "0 < nat (a + 1)"
    by simp_all
  then show "floor_log2 (nat (a * 2 + 1 + 1)) = Suc (floor_log2 (nat (a + 1)))"
    and "floor_log2 (nat (a * 2 + 2 + 1)) = Suc (floor_log2 (nat (a + 1)))"
    by (simp_all only: floor_log2_double floor_log2_double1)
qed

lemma parent_depth:
  assumes "0 \<le> p" and "0 \<le> parentIdx_next p"
  shows "Suc (floor_log2 (nat (parentIdx_next p + 1))) = floor_log2 (nat (p + 1))"
proof -
  from assms have p2: "2 \<le> nat (p + 1)"
    unfolding parentIdx_next_alt by linarith
  have "nat (parentIdx_next p + 1) = nat (p + 1) div 2"
    using assms unfolding parentIdx_next_alt by (simp add: nat_div_distrib)
  with floor_log2_half [OF p2] show ?thesis by simp
qed

lemma set_loop_char:
  assumes "LazyTree_inv t" and "0 \<le> p" and "floor_log2 (nat (p + 1)) \<le> LazyTree.depth t"
  shows "\<exists>n'. set_loop t p = (Inr (), t\<lparr>nodes := n'\<rparr>)
           \<and> (\<forall>k. k \<notin> set (ancestors p) \<longrightarrow> n' k = nodes t k)
           \<and> (\<forall>a \<in> set (ancestors p). node_consistent (t\<lparr>nodes := n'\<rparr>) a)"
  using assms
proof (induction t p rule: set_loop.induct)
  case (1 t p)
  let ?q = "parentIdx_next p"
  show ?case
  proof (cases "0 \<le> ?q")
    case False
    then have "set_loop t p = (Inr (), t)"
      by (subst set_loop.simps) (simp add: Let_def)
    moreover from False have "ancestors p = []"
      by (intro ancestors_stop) simp
    ultimately show ?thesis
      by (intro exI [of _ "nodes t"]) simp
  next
    case True
    from True "1.prems" have dq: "Suc (floor_log2 (nat (?q + 1))) = floor_log2 (nat (p + 1))"
      by (intro parent_depth) simp_all
    have "floor_log2 (nat (?q * 2 + 1 + 1)) \<le> LazyTree.depth t"
      and "floor_log2 (nat (?q * 2 + 2 + 1)) \<le> LazyTree.depth t"
      using child_depth [OF True] dq "1.prems" by simp_all
    then obtain l r where l: "LazyTree_get t (?q * 2 + 1) = Some l"
      and r: "LazyTree_get t (?q * 2 + 2) = Some r"
      using LazyTree_get_defined [of t "?q * 2 + 1"] LazyTree_get_defined [of t "?q * 2 + 2"]
        True "1.prems" by auto
    let ?v = "compress (LazyTree.hasher t) l r"
    let ?t1 = "t\<lparr>nodes := (nodes t)(?q \<mapsto> ?v)\<rparr>"
    have step: "set_loop t p = set_loop ?t1 ?q"
      using True "1.prems" l r by (subst set_loop.simps) (simp add: Let_def)
    have anc: "ancestors p = ?q # ancestors ?q"
      using True "1.prems" by (simp add: ancestors_step)
    have "\<exists>n'. set_loop ?t1 ?q = (Inr (), ?t1\<lparr>nodes := n'\<rparr>)
           \<and> (\<forall>k. k \<notin> set (ancestors ?q) \<longrightarrow> n' k = nodes ?t1 k)
           \<and> (\<forall>a \<in> set (ancestors ?q). node_consistent (?t1\<lparr>nodes := n'\<rparr>) a)"
    proof -
      have p0: "0 \<le> p" and nq: "\<not> ?q < 0"
        using True "1.prems" by simp_all
      show ?thesis
        using "1.IH" [OF p0 refl nq refl l r] True "1.prems" dq by simp
    qed
    then obtain n' where res: "set_loop ?t1 ?q = (Inr (), ?t1\<lparr>nodes := n'\<rparr>)"
      and off: "\<And>k. k \<notin> set (ancestors ?q) \<Longrightarrow> n' k = nodes ?t1 k"
      and cons: "\<And>a. a \<in> set (ancestors ?q) \<Longrightarrow> node_consistent (?t1\<lparr>nodes := n'\<rparr>) a"
      by blast
    have t1n: "?t1\<lparr>nodes := n'\<rparr> = t\<lparr>nodes := n'\<rparr>"
      by simp
    have notin: "k \<notin> set (ancestors ?q)" if "?q \<le> k" for k
      using ancestors_bounds [of k ?q] that by auto
    have nq: "n' ?q = Some ?v"
      using off [of ?q] notin [of ?q] by simp
    have nl: "n' (?q * 2 + 1) = nodes t (?q * 2 + 1)"
      using off [of "?q * 2 + 1"] notin [of "?q * 2 + 1"] True by simp
    have nr: "n' (?q * 2 + 2) = nodes t (?q * 2 + 2)"
      using off [of "?q * 2 + 2"] notin [of "?q * 2 + 2"] True by simp
    have gl: "LazyTree_get (t\<lparr>nodes := n'\<rparr>) (?q * 2 + 1) = Some l"
      using l nl LazyTree_get_cong [of "t\<lparr>nodes := n'\<rparr>" "?q * 2 + 1" t] by simp
    have gr: "LazyTree_get (t\<lparr>nodes := n'\<rparr>) (?q * 2 + 2) = Some r"
      using r nr LazyTree_get_cong [of "t\<lparr>nodes := n'\<rparr>" "?q * 2 + 2" t] by simp
    have cq: "node_consistent (t\<lparr>nodes := n'\<rparr>) ?q"
      using gl gr nq by (simp add: node_consistent_def)
    have "set_loop t p = (Inr (), t\<lparr>nodes := n'\<rparr>)"
      using step res t1n by simp
    moreover have "\<forall>k. k \<notin> set (ancestors p) \<longrightarrow> n' k = nodes t k"
      using off anc by auto
    moreover have "\<forall>a \<in> set (ancestors p). node_consistent (t\<lparr>nodes := n'\<rparr>) a"
      using cons cq anc t1n by auto
    ultimately show ?thesis
      by blast
  qed
qed

lemma LazyTree_set_ex:
  assumes "LazyTree_inv t" and "0 \<le> i" and "floor_log2 (nat (i + 1)) \<le> LazyTree.depth t"
  shows "\<exists>n'. LazyTree_set t i h = (Inr (), t\<lparr>nodes := n'\<rparr>)
           \<and> n' i = Some h
           \<and> (\<forall>k. k \<noteq> i \<and> k \<notin> set (ancestors i) \<longrightarrow> n' k = nodes t k)
           \<and> (\<forall>a \<in> set (ancestors i). node_consistent (t\<lparr>nodes := n'\<rparr>) a)"
proof -
  let ?t0 = "t\<lparr>nodes := (nodes t)(i \<mapsto> h)\<rparr>"
  from assms have "\<exists>n'. set_loop ?t0 i = (Inr (), ?t0\<lparr>nodes := n'\<rparr>)
           \<and> (\<forall>k. k \<notin> set (ancestors i) \<longrightarrow> n' k = nodes ?t0 k)
           \<and> (\<forall>a \<in> set (ancestors i). node_consistent (?t0\<lparr>nodes := n'\<rparr>) a)"
    by (intro set_loop_char) simp_all
  then obtain n' where res: "set_loop ?t0 i = (Inr (), ?t0\<lparr>nodes := n'\<rparr>)"
    and off: "\<forall>k. k \<notin> set (ancestors i) \<longrightarrow> n' k = nodes ?t0 k"
    and cons: "\<forall>a \<in> set (ancestors i). node_consistent (?t0\<lparr>nodes := n'\<rparr>) a"
    by blast
  have self: "i \<notin> set (ancestors i)"
    using ancestors_bounds [of i i] by auto
  have "LazyTree_set t i h = (Inr (), t\<lparr>nodes := n'\<rparr>)"
    using res by (simp add: LazyTree_set_def)
  moreover have "n' i = Some h"
    using off self by simp
  moreover have "\<forall>k. k \<noteq> i \<and> k \<notin> set (ancestors i) \<longrightarrow> n' k = nodes t k"
    using off by simp
  moreover have "\<forall>a \<in> set (ancestors i). node_consistent (t\<lparr>nodes := n'\<rparr>) a"
    using cons by simp
  ultimately show ?thesis
    by blast
qed

lemma LazyTree_set_char:
  assumes "LazyTree_inv t" and "0 \<le> i" and "floor_log2 (nat (i + 1)) \<le> LazyTree.depth t"
  obtains n' where "LazyTree_set t i h = (Inr (), t\<lparr>nodes := n'\<rparr>)"
    and "n' i = Some h"
    and "\<And>k. k \<noteq> i \<Longrightarrow> k \<notin> set (ancestors i) \<Longrightarrow> n' k = nodes t k"
    and "\<And>a. a \<in> set (ancestors i) \<Longrightarrow> node_consistent (t\<lparr>nodes := n'\<rparr>) a"
proof -
  from LazyTree_set_ex [OF assms, of h]
  obtain n' where 1: "LazyTree_set t i h = (Inr (), t\<lparr>nodes := n'\<rparr>)"
    and 2: "n' i = Some h"
    and 3: "\<forall>k. k \<noteq> i \<and> k \<notin> set (ancestors i) \<longrightarrow> n' k = nodes t k"
    and 4: "\<forall>a \<in> set (ancestors i). node_consistent (t\<lparr>nodes := n'\<rparr>) a"
    by blast
  show ?thesis
  proof (rule that [of n'])
    show "LazyTree_set t i h = (Inr (), t\<lparr>nodes := n'\<rparr>)" by (rule 1)
    show "n' i = Some h" by (rule 2)
    show "n' k = nodes t k" if "k \<noteq> i" "k \<notin> set (ancestors i)" for k
      using 3 that by simp
    show "node_consistent (t\<lparr>nodes := n'\<rparr>) a" if "a \<in> set (ancestors i)" for a
      using 4 that by simp
  qed
qed

lemma node_consistent_transfer:
  assumes "node_consistent t a"
    and "LazyTree.hasher t' = LazyTree.hasher t" and "emptyHashes t' = emptyHashes t"
    and "nodes t' a = nodes t a"
    and "nodes t' (a * 2 + 1) = nodes t (a * 2 + 1)"
    and "nodes t' (a * 2 + 2) = nodes t (a * 2 + 2)"
  shows "node_consistent t' a"
proof -
  have "LazyTree_get t' (a * 2 + 1) = LazyTree_get t (a * 2 + 1)"
    and "LazyTree_get t' (a * 2 + 2) = LazyTree_get t (a * 2 + 2)"
    using assms(3,5,6) by (simp_all only: LazyTree_get_def)
  with assms show ?thesis
    by (simp add: node_consistent_def split: option.splits)
qed

lemma consistent_unique:
  assumes hs: "LazyTree.hasher t1 = LazyTree.hasher t2" and es: "emptyHashes t1 = emptyHashes t2"
    and off: "\<And>k. k \<notin> A \<Longrightarrow> nodes t1 k = nodes t2 k"
    and c1: "\<And>a. a \<in> A \<Longrightarrow> node_consistent t1 a"
    and c2: "\<And>a. a \<in> A \<Longrightarrow> node_consistent t2 a"
    and bnd: "\<And>a. a \<in> A \<Longrightarrow> 0 \<le> a \<and> a \<le> M"
  shows "nodes t1 = nodes t2"
proof -
  have above: "\<forall>p. M - int k < p \<longrightarrow> nodes t1 p = nodes t2 p" for k
  proof (induction k)
    case 0
    show ?case
    proof (intro allI impI)
      fix p
      assume "M - int 0 < p"
      then have "p \<notin> A"
        using bnd [of p] by auto
      then show "nodes t1 p = nodes t2 p"
        by (rule off)
    qed
  next
    case (Suc k)
    show ?case
    proof (intro allI impI)
      fix p
      assume p: "M - int (Suc k) < p"
      show "nodes t1 p = nodes t2 p"
      proof (cases "p \<in> A")
        case False
        then show ?thesis by (rule off)
      next
        case True
        from bnd [OF True] have p0: "0 \<le> p" by simp
        with p have "M - int k < p * 2 + 1" and "M - int k < p * 2 + 2"
          by simp_all
        with Suc.IH have "nodes t1 (p * 2 + 1) = nodes t2 (p * 2 + 1)"
          and "nodes t1 (p * 2 + 2) = nodes t2 (p * 2 + 2)"
          by simp_all
        then have "LazyTree_get t1 (p * 2 + 1) = LazyTree_get t2 (p * 2 + 1)"
          and "LazyTree_get t1 (p * 2 + 2) = LazyTree_get t2 (p * 2 + 2)"
          using es by (simp_all only: LazyTree_get_def)
        with c1 [OF True] c2 [OF True] hs show ?thesis
          by (auto simp: node_consistent_def split: option.splits)
      qed
    qed
  qed
  show ?thesis
  proof
    fix p
    have "M - int (Suc (nat (M - p))) < p"
      by simp
    with above [of "Suc (nat (M - p))"] show "nodes t1 p = nodes t2 p"
      by blast
  qed
qed

lemma LazyTree_set_idem:
  assumes "LazyTree_inv t" and "0 \<le> i" and "floor_log2 (nat (i + 1)) \<le> LazyTree.depth t"
    and "LazyTree_set t i h = (r, t')"
  shows "LazyTree_set t' i h = (Inr (), t')"
proof -
  obtain n' where s1: "LazyTree_set t i h = (Inr (), t\<lparr>nodes := n'\<rparr>)"
    and at1: "n' i = Some h"
    and off1: "\<And>k. k \<noteq> i \<Longrightarrow> k \<notin> set (ancestors i) \<Longrightarrow> n' k = nodes t k"
    and cons1: "\<And>a. a \<in> set (ancestors i) \<Longrightarrow> node_consistent (t\<lparr>nodes := n'\<rparr>) a"
    by (rule LazyTree_set_char [OF assms(1-3), of h]) blast
  let ?t1 = "t\<lparr>nodes := n'\<rparr>"
  from s1 assms(4) have t': "t' = ?t1"
    by simp
  have inv': "LazyTree_inv ?t1" and d': "floor_log2 (nat (i + 1)) \<le> LazyTree.depth ?t1"
    using assms(1,3) by simp_all
  obtain n'' where s2: "LazyTree_set ?t1 i h = (Inr (), ?t1\<lparr>nodes := n''\<rparr>)"
    and at2: "n'' i = Some h"
    and off2: "\<And>k. k \<noteq> i \<Longrightarrow> k \<notin> set (ancestors i) \<Longrightarrow> n'' k = nodes ?t1 k"
    and cons2: "\<And>a. a \<in> set (ancestors i) \<Longrightarrow> node_consistent (?t1\<lparr>nodes := n''\<rparr>) a"
    by (rule LazyTree_set_char [OF inv' assms(2) d', of h]) blast
  let ?t2 = "t\<lparr>nodes := n''\<rparr>"
  have "nodes ?t2 = nodes ?t1"
  proof (rule consistent_unique [where A = "set (ancestors i)" and M = i])
    fix k
    assume k: "k \<notin> set (ancestors i)"
    show "nodes ?t2 k = nodes ?t1 k"
    proof (cases "k = i")
      case True
      with at1 at2 show ?thesis by simp
    next
      case False
      with off2 [OF False k] show ?thesis by simp
    qed
  next
    fix a
    assume a: "a \<in> set (ancestors i)"
    show "node_consistent ?t2 a"
      using cons2 [OF a] by simp
    show "node_consistent ?t1 a"
      using cons1 [OF a] .
    show "0 \<le> a \<and> a \<le> i"
      using ancestors_bounds [OF a] by simp
  qed simp_all
  then have "n'' = n'"
    by simp
  with s2 t' show ?thesis
    by simp
qed

lemma ancestors_depth:
  "a \<in> set (ancestors p) \<Longrightarrow> floor_log2 (nat (a + 1)) < floor_log2 (nat (p + 1))"
proof (induction p rule: ancestors.induct)
  case (1 p)
  let ?q = "parentIdx_next p"
  show ?case
  proof (cases "0 \<le> p \<and> 0 \<le> ?q")
    case True
    then have eq: "ancestors p = ?q # ancestors ?q"
      by (simp add: ancestors_step)
    have dq: "Suc (floor_log2 (nat (?q + 1))) = floor_log2 (nat (p + 1))"
      using True by (intro parent_depth) simp_all
    from "1.prems" eq have "a = ?q \<or> a \<in> set (ancestors ?q)"
      by simp
    then show ?thesis
    proof
      assume "a = ?q"
      with dq show ?thesis by simp
    next
      assume "a \<in> set (ancestors ?q)"
      with "1.IH" [of ?q] True have "floor_log2 (nat (a + 1)) < floor_log2 (nat (?q + 1))"
        by simp
      with dq show ?thesis by simp
    qed
  next
    case False
    then have "ancestors p = []"
      by (intro ancestors_stop) auto
    with "1.prems" show ?thesis by simp
  qed
qed

lemma child_off_path:
  assumes "a \<notin> set (ancestors j)" and "0 \<le> a" and "c = a * 2 + 1 \<or> c = a * 2 + 2"
  shows "c \<noteq> j \<and> c \<notin> set (ancestors j)"
proof -
  from assms have c: "0 < c" and pc: "parentIdx_next c = a"
    by auto
  have "c \<noteq> j"
    using ancestors_parent_self [of c] c pc assms(1) by auto
  moreover have "c \<notin> set (ancestors j)"
    using ancestors_parent_closed [of c j] c pc assms(1) by auto
  ultimately show ?thesis by simp
qed

lemma LazyTree_set_commute:
  assumes inv: "LazyTree_inv t"
    and i: "0 \<le> i" "floor_log2 (nat (i + 1)) \<le> LazyTree.depth t"
    and j: "0 \<le> j" "floor_log2 (nat (j + 1)) \<le> LazyTree.depth t"
    and ij: "i \<noteq> j" "i \<notin> set (ancestors j)" "j \<notin> set (ancestors i)"
    and si: "LazyTree_set t i hi = (r1, t1)" and sij: "LazyTree_set t1 j hj = (r2, t2)"
    and sj: "LazyTree_set t j hj = (q1, u1)" and sji: "LazyTree_set u1 i hi = (q2, u2)"
  shows "t2 = u2 \<and> r2 = Inr () \<and> q2 = Inr ()"
proof -
  obtain n1 where a1: "LazyTree_set t i hi = (Inr (), t\<lparr>nodes := n1\<rparr>)"
    and a2: "n1 i = Some hi"
    and a3: "\<And>k. k \<noteq> i \<Longrightarrow> k \<notin> set (ancestors i) \<Longrightarrow> n1 k = nodes t k"
    and a4: "\<And>a. a \<in> set (ancestors i) \<Longrightarrow> node_consistent (t\<lparr>nodes := n1\<rparr>) a"
    by (rule LazyTree_set_char [OF inv i, of hi]) blast
  obtain m1 where b1: "LazyTree_set t j hj = (Inr (), t\<lparr>nodes := m1\<rparr>)"
    and b2: "m1 j = Some hj"
    and b3: "\<And>k. k \<noteq> j \<Longrightarrow> k \<notin> set (ancestors j) \<Longrightarrow> m1 k = nodes t k"
    and b4: "\<And>a. a \<in> set (ancestors j) \<Longrightarrow> node_consistent (t\<lparr>nodes := m1\<rparr>) a"
    by (rule LazyTree_set_char [OF inv j, of hj]) blast
  from a1 si have t1: "t1 = t\<lparr>nodes := n1\<rparr>" by simp
  from b1 sj have u1: "u1 = t\<lparr>nodes := m1\<rparr>" by simp
  have inv1: "LazyTree_inv t1" and dj1: "floor_log2 (nat (j + 1)) \<le> LazyTree.depth t1"
    and invu: "LazyTree_inv u1" and di1: "floor_log2 (nat (i + 1)) \<le> LazyTree.depth u1"
    using inv i j t1 u1 by simp_all
  obtain n2 where c1: "LazyTree_set t1 j hj = (Inr (), t1\<lparr>nodes := n2\<rparr>)"
    and c2: "n2 j = Some hj"
    and c3: "\<And>k. k \<noteq> j \<Longrightarrow> k \<notin> set (ancestors j) \<Longrightarrow> n2 k = nodes t1 k"
    and c4: "\<And>a. a \<in> set (ancestors j) \<Longrightarrow> node_consistent (t1\<lparr>nodes := n2\<rparr>) a"
    by (rule LazyTree_set_char [OF inv1 j(1) dj1, of hj]) blast
  obtain m2 where d1: "LazyTree_set u1 i hi = (Inr (), u1\<lparr>nodes := m2\<rparr>)"
    and d2: "m2 i = Some hi"
    and d3: "\<And>k. k \<noteq> i \<Longrightarrow> k \<notin> set (ancestors i) \<Longrightarrow> m2 k = nodes u1 k"
    and d4: "\<And>a. a \<in> set (ancestors i) \<Longrightarrow> node_consistent (u1\<lparr>nodes := m2\<rparr>) a"
    by (rule LazyTree_set_char [OF invu i(1) di1, of hi]) blast
  let ?T = "t\<lparr>nodes := n2\<rparr>" and ?U = "t\<lparr>nodes := m2\<rparr>"
  have t2: "t2 = ?T" and r2: "r2 = Inr ()"
    using c1 sij t1 by simp_all
  have u2: "u2 = ?U" and q2: "q2 = Inr ()"
    using d1 sji u1 by simp_all
  have n2_off: "n2 k = n1 k" if "k \<noteq> j" "k \<notin> set (ancestors j)" for k
    using c3 [OF that] t1 by simp
  have m2_off: "m2 k = m1 k" if "k \<noteq> i" "k \<notin> set (ancestors i)" for k
    using d3 [OF that] u1 by simp
  have consT: "node_consistent ?T a" if "a \<in> set (ancestors i) \<union> set (ancestors j)" for a
  proof (cases "a \<in> set (ancestors j)")
    case True
    then show ?thesis using c4 [of a] t1 by simp
  next
    case False
    with that have ai: "a \<in> set (ancestors i)" by simp
    then have a0: "0 \<le> a" using ancestors_bounds [of a i] by simp
    have aj: "a \<noteq> j" using ai ij by auto
    have "node_consistent (t\<lparr>nodes := n1\<rparr>) a" using a4 [OF ai] .
    then show ?thesis
    proof (rule node_consistent_transfer)
      show "nodes ?T a = nodes (t\<lparr>nodes := n1\<rparr>) a"
        using n2_off [of a] aj False by simp
      show "nodes ?T (a * 2 + 1) = nodes (t\<lparr>nodes := n1\<rparr>) (a * 2 + 1)"
        using n2_off [of "a * 2 + 1"] child_off_path [OF False a0, of "a * 2 + 1"] by simp
      show "nodes ?T (a * 2 + 2) = nodes (t\<lparr>nodes := n1\<rparr>) (a * 2 + 2)"
        using n2_off [of "a * 2 + 2"] child_off_path [OF False a0, of "a * 2 + 2"] by simp
    qed simp_all
  qed
  have consU: "node_consistent ?U a" if "a \<in> set (ancestors i) \<union> set (ancestors j)" for a
  proof (cases "a \<in> set (ancestors i)")
    case True
    then show ?thesis using d4 [of a] u1 by simp
  next
    case False
    with that have aj: "a \<in> set (ancestors j)" by simp
    then have a0: "0 \<le> a" using ancestors_bounds [of a j] by simp
    have ai: "a \<noteq> i" using aj ij by auto
    have "node_consistent (t\<lparr>nodes := m1\<rparr>) a" using b4 [OF aj] .
    then show ?thesis
    proof (rule node_consistent_transfer)
      show "nodes ?U a = nodes (t\<lparr>nodes := m1\<rparr>) a"
        using m2_off [of a] ai False by simp
      show "nodes ?U (a * 2 + 1) = nodes (t\<lparr>nodes := m1\<rparr>) (a * 2 + 1)"
        using m2_off [of "a * 2 + 1"] child_off_path [OF False a0, of "a * 2 + 1"] by simp
      show "nodes ?U (a * 2 + 2) = nodes (t\<lparr>nodes := m1\<rparr>) (a * 2 + 2)"
        using m2_off [of "a * 2 + 2"] child_off_path [OF False a0, of "a * 2 + 2"] by simp
    qed simp_all
  qed
  have "nodes ?T = nodes ?U"
  proof (rule consistent_unique [where A = "set (ancestors i) \<union> set (ancestors j)" and M = "max i j"])
    fix k
    assume k: "k \<notin> set (ancestors i) \<union> set (ancestors j)"
    have "n2 k = m2 k"
    proof (cases "k = i")
      case True
      then show ?thesis using n2_off [of k] a2 d2 ij k by simp
    next
      case ki: False
      show ?thesis
      proof (cases "k = j")
        case True
        then show ?thesis using m2_off [of k] b2 c2 ij k by simp
      next
        case False
        then show ?thesis
          using n2_off [of k] m2_off [of k] a3 [of k] b3 [of k] ki k by simp
      qed
    qed
    then show "nodes ?T k = nodes ?U k" by simp
  next
    fix a
    assume a: "a \<in> set (ancestors i) \<union> set (ancestors j)"
    show "node_consistent ?T a" and "node_consistent ?U a"
      using consT [OF a] consU [OF a] by simp_all
    show "0 \<le> a \<and> a \<le> max i j"
      using a ancestors_bounds [of a i] ancestors_bounds [of a j] by auto
  qed simp_all
  then have "?T = ?U" by simp
  with t2 u2 r2 q2 show ?thesis by simp
qed

lemma getPath_loop_eq:
  "getPath_loop t p path =
     path @ map (\<lambda>a. (LazyTree_get t (a * 2 + 1), LazyTree_get t (a * 2 + 2))) (ancestors p)"
proof (induction t p path rule: getPath_loop.induct)
  case (1 t p path)
  let ?q = "parentIdx_next p"
  show ?case
  proof (cases "0 \<le> p \<and> 0 \<le> ?q")
    case True
    then have eq: "ancestors p = ?q # ancestors ?q"
      by (simp add: ancestors_step)
    have p0: "0 \<le> p" and nq: "\<not> ?q < 0"
      using True by simp_all
    have "getPath_loop t p path =
        getPath_loop t ?q (path @ [(LazyTree_get t (?q * 2 + 1), LazyTree_get t (?q * 2 + 2))])"
      using True by (subst getPath_loop.simps) (simp add: Let_def)
    with "1.IH" [OF p0 refl nq] eq show ?thesis
      by simp
  next
    case False
    then have "ancestors p = []"
      by (intro ancestors_stop) auto
    moreover from False have "getPath_loop t p path = path"
      by (subst getPath_loop.simps) (auto simp: Let_def)
    ultimately show ?thesis by simp
  qed
qed

lemma LazyTree_getPath_eq:
  "LazyTree_getPath t i =
     map (\<lambda>a. (LazyTree_get t (a * 2 + 1), LazyTree_get t (a * 2 + 2))) (ancestors i)"
  by (simp add: LazyTree_getPath_def getPath_loop_eq)

lemma node_consistent_get:
  assumes "node_consistent t a"
  obtains l r where "LazyTree_get t (a * 2 + 1) = Some l" and "LazyTree_get t (a * 2 + 2) = Some r"
    and "LazyTree_get t a = Some (compress (LazyTree.hasher t) l r)"
  using assms by (auto simp: node_consistent_def LazyTree_get_def split: option.splits)

lemma reconstructRoot_path:
  assumes "\<And>a. a \<in> set (ancestors x) \<Longrightarrow> node_consistent t a"
    and "0 \<le> x" and "LazyTree_get t x = Some cur"
  shows "reconstructRoot (LazyTree.hasher t) x cur
           (map (\<lambda>a. (LazyTree_get t (a * 2 + 1), LazyTree_get t (a * 2 + 2))) (ancestors x))
         = LazyTree_get t 0"
  using assms
proof (induction x arbitrary: cur rule: ancestors.induct)
  case (1 x)
  let ?q = "parentIdx_next x"
  show ?case
  proof (cases "0 \<le> ?q")
    case False
    then have e: "ancestors x = []"
      by (intro ancestors_stop) simp
    from False "1.prems"(2) have "x = 0"
      unfolding parentIdx_next_alt by linarith
    with e "1.prems"(3) show ?thesis by simp
  next
    case True
    have x0: "0 \<le> x" and nq: "\<not> ?q < 0"
      using True "1.prems"(2) by simp_all
    have eq: "ancestors x = ?q # ancestors ?q"
      using True x0 by (simp add: ancestors_step)
    have "node_consistent t ?q"
      using "1.prems"(1) [of ?q] eq by simp
    then obtain l r where l: "LazyTree_get t (?q * 2 + 1) = Some l"
      and r: "LazyTree_get t (?q * 2 + 2) = Some r"
      and v: "LazyTree_get t ?q = Some (compress (LazyTree.hasher t) l r)"
      by (rule node_consistent_get)
    have side: "(if x mod 2 = 1 then l else r) = cur"
    proof (cases "x mod 2 = 1")
      case True
      then have "x = ?q * 2 + 1"
        unfolding parentIdx_next_alt by presburger
      with l "1.prems"(3) True show ?thesis by simp
    next
      case False
      then have "x = ?q * 2 + 2"
        unfolding parentIdx_next_alt by presburger
      with r "1.prems"(3) False show ?thesis by simp
    qed
    have rest: "reconstructRoot (LazyTree.hasher t) ?q (compress (LazyTree.hasher t) l r)
           (map (\<lambda>a. (LazyTree_get t (a * 2 + 1), LazyTree_get t (a * 2 + 2))) (ancestors ?q))
         = LazyTree_get t 0"
    proof (rule "1.IH" [OF x0 refl nq])
      fix a
      assume "a \<in> set (ancestors ?q)"
      then show "node_consistent t a"
        using "1.prems"(1) [of a] eq by simp
    qed (simp_all add: True v)
    show ?thesis
      unfolding eq using l r side rest by simp
  qed
qed

lemma ancestors_depths:
  "0 \<le> p \<Longrightarrow>
   map (\<lambda>a. floor_log2 (nat (a + 1))) (ancestors p) = rev [0 ..< floor_log2 (nat (p + 1))]"
proof (induction p rule: ancestors.induct)
  case (1 p)
  let ?q = "parentIdx_next p"
  show ?case
  proof (cases "0 \<le> ?q")
    case False
    then have e: "ancestors p = []"
      by (intro ancestors_stop) simp
    from False "1.prems" have "p = 0"
      unfolding parentIdx_next_alt by linarith
    with e show ?thesis by (simp add: floor_log2.simps)
  next
    case True
    have p0: "0 \<le> p" and nq: "\<not> ?q < 0"
      using True "1.prems" by simp_all
    have eq: "ancestors p = ?q # ancestors ?q"
      using True p0 by (simp add: ancestors_step)
    have dq: "Suc (floor_log2 (nat (?q + 1))) = floor_log2 (nat (p + 1))"
      using p0 True by (rule parent_depth)
    have "map (\<lambda>a. floor_log2 (nat (a + 1))) (ancestors ?q) = rev [0 ..< floor_log2 (nat (?q + 1))]"
      using "1.IH" [OF p0 refl nq] True by simp
    then show ?thesis
      unfolding eq dq [symmetric] by simp
  qed
qed

lemma leaf_depth:
  assumes "0 \<le> i" and "i < 2 ^ D"
  shows "floor_log2 (nat (i + 2 ^ D - 1 + 1)) = D"
proof (rule floor_log2_unique)
  have n: "nat (i + 2 ^ D - 1 + 1) = nat i + 2 ^ D"
    using assms by (simp add: nat_add_distrib nat_power_eq)
  show "2 ^ D \<le> nat (i + 2 ^ D - 1 + 1)"
    unfolding n by simp
  have "nat i < 2 ^ D"
    using assms by (simp add: nat_less_iff)
  then show "nat (i + 2 ^ D - 1 + 1) < 2 ^ Suc D"
    unfolding n by simp
qed

lemma same_depth_not_ancestor:
  "floor_log2 (nat (i + 1)) = floor_log2 (nat (j + 1)) \<Longrightarrow> i \<notin> set (ancestors j)"
  using ancestors_depth [of i j] by auto

lemma LazyTree_set_dom:
  assumes "LazyTree_inv t" and "0 \<le> i" and "floor_log2 (nat (i + 1)) \<le> LazyTree.depth t"
    and "LazyTree_set t i h = (r, t')"
  shows "dom (nodes t') = dom (nodes t) \<union> set (i # ancestors i)"
    and "\<And>k. k \<notin> set (i # ancestors i) \<Longrightarrow> nodes t' k = nodes t k"
proof -
  obtain n' where s: "LazyTree_set t i h = (Inr (), t\<lparr>nodes := n'\<rparr>)"
    and at: "n' i = Some h"
    and off: "\<And>k. k \<noteq> i \<Longrightarrow> k \<notin> set (ancestors i) \<Longrightarrow> n' k = nodes t k"
    and cons: "\<And>a. a \<in> set (ancestors i) \<Longrightarrow> node_consistent (t\<lparr>nodes := n'\<rparr>) a"
    by (rule LazyTree_set_char [OF assms(1-3), of h]) blast
  from s assms(4) have t': "t' = t\<lparr>nodes := n'\<rparr>"
    by simp
  have some: "n' a \<noteq> None" if "a \<in> set (ancestors i)" for a
    using cons [OF that] by (auto simp: node_consistent_def split: option.splits)
  show "\<And>k. k \<notin> set (i # ancestors i) \<Longrightarrow> nodes t' k = nodes t k"
    using off t' by simp
  show "dom (nodes t') = dom (nodes t) \<union> set (i # ancestors i)"
  proof (rule set_eqI)
    fix k
    show "k \<in> dom (nodes t') \<longleftrightarrow> k \<in> dom (nodes t) \<union> set (i # ancestors i)"
    proof (cases "k = i \<or> k \<in> set (ancestors i)")
      case True
      then have "n' k \<noteq> None"
        using at some [of k] by auto
      with True t' show ?thesis by (auto simp: dom_def)
    next
      case False
      then have "n' k = nodes t k"
        using off [of k] by simp
      with False t' show ?thesis by (auto simp: dom_def)
    qed
  qed
qed

lemma LazyTree_constructor_fields [simp]:
  "LazyTree.hasher (LazyTree_constructor H D) = H"
  "LazyTree.depth (LazyTree_constructor H D) = D"
  "nodes (LazyTree_constructor H D) = Map.empty"
  by (simp_all add: LazyTree_constructor_eq)

lemma MerkleTree_constructor_ok:
  assumes "1 \<le> D" and "D \<le> MAX_DEPTH"
  shows "MerkleTree_constructor H nm D =
           Inr \<lparr>MerkleTree.hasher = H, name = nm, depth = D, tree = LazyTree_constructor H D\<rparr>"
  using assms by (simp add: MerkleTree_constructor_def)

lemma MerkleTree_constructor_inv:
  assumes "MerkleTree_constructor H nm D = Inr m"
  shows "MerkleTree_inv m" and "MerkleTree.hasher m = H" and "name m = nm"
    and "MerkleTree.depth m = D" and "tree m = LazyTree_constructor H D"
  using assms
  by (auto simp: MerkleTree_constructor_def MerkleTree_inv_def LazyTree_inv_constructor
      split: if_splits)

lemma LazyTree_getRoot_defined:
  assumes "LazyTree_inv t"
  shows "\<exists>r. LazyTree_getRoot t = Some r"
  unfolding LazyTree_getRoot_def
  using assms by (intro LazyTree_get_defined) (simp_all add: floor_log2.simps)

lemma elementTreeIndex_range:
  assumes "MerkleTree_inv m" and "0 \<le> i" and "i < 2 ^ MerkleTree.depth m"
  shows "0 \<le> elementTreeIndex m i"
    and "floor_log2 (nat (elementTreeIndex m i + 1)) = MerkleTree.depth m"
    and "floor_log2 (nat (elementTreeIndex m i + 1)) \<le> LazyTree.depth (tree m)"
proof -
  have "(0::int) < 2 ^ MerkleTree.depth m"
    by simp
  with assms(2) show "0 \<le> elementTreeIndex m i"
    unfolding elementTreeIndex_def by linarith
  show d: "floor_log2 (nat (elementTreeIndex m i + 1)) = MerkleTree.depth m"
    unfolding elementTreeIndex_def using assms(2,3) by (rule leaf_depth)
  show "floor_log2 (nat (elementTreeIndex m i + 1)) \<le> LazyTree.depth (tree m)"
    using d assms(1) by (simp add: MerkleTree_inv_def)
qed

lemma writeMetaData_put:
  assumes "MerkleTree_inv m"
  shows "\<exists>data. writeMetaData m db = db_put db (name m) data"
proof -
  from assms have "LazyTree_inv (tree m)" and D: "MerkleTree.depth m \<le> 32"
    by (simp_all add: MerkleTree_inv_def MAX_DEPTH_def)
  then obtain root where root: "MerkleTree_getRoot m = Some root"
    using LazyTree_getRoot_defined [of "tree m"] by (auto simp: MerkleTree_getRoot_def)
  have "length (Buffer_copy root (Buffer_alloc 40)) = 40"
    by (simp add: Buffer_copy_def Buffer_alloc_def)
  moreover have "MerkleTree.depth m < 2 ^ 32"
    using D by simp
  ultimately obtain data where
    "writeUInt32LE (Buffer_copy root (Buffer_alloc 40)) (MerkleTree.depth m) 32 = Inr data"
    by (simp add: writeUInt32LE_def)
  with root have "writeMetaData m db = db_put db (name m) data"
    by (simp add: writeMetaData_def)
  then show ?thesis ..
qed

lemma db_put_cases:
  "(\<exists>msg db'. db_put db key v = (Inl (StoreError msg), db')) \<or> (\<exists>db'. db_put db key v = (Inr (), db'))"
  by (cases "faults db"; simp add: db_put_def next_fault_def split: option.splits)

lemma sublevel_put_cases:
  "(\<exists>msg db'. sublevel_put db ns key v = (Inl (StoreError msg), db'))
     \<or> (\<exists>db'. sublevel_put db ns key v = (Inr (), db'))"
  by (cases "faults db"; simp add: sublevel_put_def next_fault_def split: option.splits)

lemma updateElement_handle:
  assumes "MerkleTree_inv m" and "0 \<le> i" and "i < 2 ^ MerkleTree.depth m"
    and "updateElement m db i v = (r, m', db')"
  shows "LazyTree_set (tree m) (elementTreeIndex m i) (hash (MerkleTree.hasher m) v) = (Inr (), tree m')"
    and "m' = m\<lparr>tree := tree m'\<rparr>"
    and "MerkleTree_inv m'"
    and "r = Inr x \<Longrightarrow> x = MerkleTree_getRoot m'"
    and "r = Inl e \<Longrightarrow> \<exists>msg. e = StoreError msg"
proof -
  let ?idx = "elementTreeIndex m i" and ?h = "hash (MerkleTree.hasher m) v"
  have inv: "LazyTree_inv (tree m)"
    using assms(1) by (simp add: MerkleTree_inv_def)
  obtain n' where s: "LazyTree_set (tree m) ?idx ?h = (Inr (), (tree m)\<lparr>nodes := n'\<rparr>)"
    using LazyTree_set_ex [OF inv elementTreeIndex_range(1,3) [OF assms(1-3)], of ?h] by blast
  let ?m1 = "m\<lparr>tree := (tree m)\<lparr>nodes := n'\<rparr>\<rparr>"
  have inv1: "MerkleTree_inv ?m1"
    using assms(1) by (simp add: MerkleTree_inv_def)
  obtain data where w: "\<And>d. writeMetaData ?m1 d = db_put d (name m) data"
  proof -
    from inv1 have "LazyTree_inv (tree ?m1)" and D: "MerkleTree.depth ?m1 \<le> 32"
      by (simp_all add: MerkleTree_inv_def MAX_DEPTH_def)
    then obtain root where root: "MerkleTree_getRoot ?m1 = Some root"
      using LazyTree_getRoot_defined [of "tree ?m1"] by (auto simp: MerkleTree_getRoot_def)
    have "length (Buffer_copy root (Buffer_alloc 40)) = 40"
      by (simp add: Buffer_copy_def Buffer_alloc_def)
    moreover have "MerkleTree.depth ?m1 < 2 ^ 32"
      using D by simp
    ultimately obtain data where
      "writeUInt32LE (Buffer_copy root (Buffer_alloc 40)) (MerkleTree.depth ?m1) 32 = Inr data"
      by (simp add: writeUInt32LE_def)
    with root have "\<And>d. writeMetaData ?m1 d = db_put d (name m) data"
      by (simp add: writeMetaData_def)
    then show ?thesis by (rule that)
  qed
  have upd: "updateElement m db i v =
      (case sublevel_put db (name m) (Number_toString i) (toString_hex ?h) of
         (Inl e, db1) \<Rightarrow> (Inl e, ?m1, db1)
       | (Inr u1, db1) \<Rightarrow>
           (case db_put db1 (name m) data of
              (Inl e, db2) \<Rightarrow> (Inl e, ?m1, db2)
            | (Inr u2, db2) \<Rightarrow> (Inr (MerkleTree_getRoot ?m1), ?m1, db2)))"
    by (simp add: updateElement_def s w Let_def split: prod.splits sum.splits)
  have m': "m' = ?m1"
    using assms(4) unfolding upd
    by (auto split: prod.splits sum.splits)
  show "LazyTree_set (tree m) ?idx ?h = (Inr (), tree m')"
    using s m' by simp
  show "m' = m\<lparr>tree := tree m'\<rparr>"
    using m' by simp
  show "MerkleTree_inv m'"
    using inv1 m' by simp
  show "r = Inr x \<Longrightarrow> x = MerkleTree_getRoot m'"
    using assms(4) m' unfolding upd
    by (auto split: prod.splits sum.splits)
  show "r = Inl e \<Longrightarrow> \<exists>msg. e = StoreError msg"
    using assms(4) sublevel_put_cases [of db "name m" "Number_toString i" "toString_hex ?h"]
      db_put_cases [of _ "name m" data]
    unfolding upd
    by (auto split: prod.splits sum.splits) (metis Inl_inject Pair_inject sum.distinct(1))+
qed

lemma ancestors_root:
  assumes "0 < p"
  shows "0 \<in> set (ancestors p)"
proof -
  from assms have p2: "2 \<le> nat (p + 1)" by simp
  have "0 < floor_log2 (nat (p + 1))"
    using floor_log2_half [OF p2] by simp
  then have "0 \<in> set (rev [0 ..< floor_log2 (nat (p + 1))])"
    by simp
  then have "0 \<in> set (map (\<lambda>a. floor_log2 (nat (a + 1))) (ancestors p))"
    using ancestors_depths [of p] assms by simp
  then obtain a where a: "a \<in> set (ancestors p)" and d: "floor_log2 (nat (a + 1)) = 0"
    by auto
  from ancestors_bounds [OF a] have a0: "0 \<le> a" by simp
  then have "0 < nat (a + 1)" by simp
  from floor_log2_bounds [OF this] d have "nat (a + 1) < 2"
    by simp
  with a0 have "a = 0" by simp
  with a show ?thesis by simp
qed

lemma leaf_node_depth:
  assumes "2 ^ D - 1 \<le> i" and "i \<le> 2 ^ (D + 1) - 2"
  shows "0 \<le> i" and "floor_log2 (nat (i + 1)) = D"
proof -
  have pos: "(0::int) < 2 ^ D" by simp
  with assms(1) show "0 \<le> i" by linarith
  have "0 \<le> i - 2 ^ D + 1" and "i - 2 ^ D + 1 < 2 ^ D"
    using assms by simp_all
  from leaf_depth [OF this] show "floor_log2 (nat (i + 1)) = D"
    by simp
qed

lemma LazyTree_set_fields:
  assumes "LazyTree_inv t" and "0 \<le> i" and "floor_log2 (nat (i + 1)) \<le> LazyTree.depth t"
  shows "fst (LazyTree_set t i h) = Inr ()"
    and "LazyTree_inv (snd (LazyTree_set t i h))"
    and "LazyTree.depth (snd (LazyTree_set t i h)) = LazyTree.depth t"
    and "LazyTree.hasher (snd (LazyTree_set t i h)) = LazyTree.hasher t"
proof -
  obtain n' where "LazyTree_set t i h = (Inr (), t\<lparr>nodes := n'\<rparr>)"
    using LazyTree_set_ex [OF assms, of h] by blast
  with assms(1) show "fst (LazyTree_set t i h) = Inr ()"
    and "LazyTree_inv (snd (LazyTree_set t i h))"
    and "LazyTree.depth (snd (LazyTree_set t i h)) = LazyTree.depth t"
    and "LazyTree.hasher (snd (LazyTree_set t i h)) = LazyTree.hasher t"
    by simp_all
qed

lemma LazyTree_set_card:
  assumes "LazyTree_inv t" and "2 ^ LazyTree.depth t - 1 \<le> i" and "i \<le> 2 ^ (LazyTree.depth t + 1) - 2"
  shows "card (dom (nodes (snd (LazyTree_set t i h)))) \<le> card (dom (nodes t)) + (LazyTree.depth t + 1)"
proof -
  note leaf = leaf_node_depth [OF assms(2,3)]
  have d: "floor_log2 (nat (i + 1)) \<le> LazyTree.depth t"
    using leaf(2) by simp
  have "dom (nodes (snd (LazyTree_set t i h))) = dom (nodes t) \<union> set (i # ancestors i)"
    by (rule LazyTree_set_dom(1) [OF assms(1) leaf(1) d, of h "fst (LazyTree_set t i h)"]) simp
  moreover have "card (dom (nodes t) \<union> set (i # ancestors i))
      \<le> card (dom (nodes t)) + card (set (i # ancestors i))"
    by (rule card_Un_le)
  moreover have "card (set (i # ancestors i)) \<le> length (i # ancestors i)"
    by (rule card_length)
  moreover have "length (i # ancestors i) = LazyTree.depth t + 1"
    using ancestors_length [OF leaf(1)] leaf(2) by simp
  ultimately show ?thesis
    by simp
qed

lemma set_all_card:
  assumes "LazyTree_inv t"
    and "\<forall>(j, x) \<in> set ws. 2 ^ LazyTree.depth t - 1 \<le> j \<and> j \<le> 2 ^ (LazyTree.depth t + 1) - 2"
  shows "card (dom (nodes (set_all t ws))) \<le> card (dom (nodes t)) + length ws * (LazyTree.depth t + 1)"
  using assms
proof (induction ws arbitrary: t)
  case Nil
  then show ?case by simp
next
  case (Cons w ws)
  obtain j x where w: "w = (j, x)" by (cases w)
  let ?t1 = "snd (LazyTree_set t j x)"
  from Cons.prems w have lo: "2 ^ LazyTree.depth t - 1 \<le> j" and hi: "j \<le> 2 ^ (LazyTree.depth t + 1) - 2"
    by simp_all
  note leaf = leaf_node_depth [OF lo hi]
  have d: "floor_log2 (nat (j + 1)) \<le> LazyTree.depth t"
    using leaf(2) by simp
  note f = LazyTree_set_fields [OF Cons.prems(1) leaf(1) d, of x]
  have "card (dom (nodes (set_all ?t1 ws))) \<le> card (dom (nodes ?t1)) + length ws * (LazyTree.depth ?t1 + 1)"
    using Cons.prems(2) f by (intro Cons.IH) simp_all
  moreover have "card (dom (nodes ?t1)) \<le> card (dom (nodes t)) + (LazyTree.depth t + 1)"
    by (rule LazyTree_set_card [OF Cons.prems(1) lo hi])
  ultimately show ?case
    using f(3) w by simp
qed

lemma demo_tree_inv: "MerkleTree_inv demo_tree"
  by (simp add: MerkleTree_inv_def demo_tree_def LazyTree_inv_constructor MAX_DEPTH_def)

lemma demo_tree_depth [simp]: "MerkleTree.depth demo_tree = 2"
  by (simp add: demo_tree_def)

subsection \<open>Opening a tree\<close>

lemma updateElement_handle_fields:
  assumes "m' = m\<lparr>tree := t\<rparr>"
  shows "MerkleTree.depth m' = MerkleTree.depth m" and "MerkleTree.hasher m' = MerkleTree.hasher m"
    and "name m' = name m" and "elementTreeIndex m' i = elementTreeIndex m i"
  by (simp_all add: assms elementTreeIndex_def)

lemma next_fault_fields:
  "records (snd (next_fault db)) = records db"
  "sublevels (snd (next_fault db)) = sublevels db"
  "faults (snd (next_fault db)) = tl (faults db)"
  "fst (next_fault db) = (case faults db of [] \<Rightarrow> None | f # fs \<Rightarrow> f)"
  by (simp_all add: next_fault_def split: list.splits)

lemma db_get_absent:
  assumes "records db nm = None"
  shows "\<exists>e. db_get db nm = (Inl e, snd (next_fault db))"
  using assms next_fault_fields(1) [of db]
  by (cases "next_fault db") (auto simp: db_get_def split: option.splits)

lemma db_put_no_fault:
  assumes "faults db = []"
  shows "\<exists>db'. db_put db key v = (Inr (), db')"
  using assms by (simp add: db_put_def next_fault_def)

lemma MerkleTree_new_fresh:
  assumes "db_get db nm = (Inl e, db1)"
  shows "MerkleTree_new H db nm d =
     (case MerkleTree_constructor H nm (case d of None \<Rightarrow> MAX_DEPTH | Some x \<Rightarrow> x) of
        Inl e \<Rightarrow> (Inl e, db1)
      | Inr m \<Rightarrow>
          (case writeMetaData m db1 of
             (Inl e, db2) \<Rightarrow> (Inl e, db2)
           | (Inr u, db2) \<Rightarrow> (Inr m, db2)))"
  using assms by (simp add: MerkleTree_new_def)

lemma MerkleTree_new_fresh_result:
  assumes "db_get db nm = (Inl e, db1)" and "MerkleTree_new H db nm d = (Inr m, db')"
  shows "MerkleTree_constructor H nm (case d of None \<Rightarrow> MAX_DEPTH | Some x \<Rightarrow> x) = Inr m"
  using assms(2) unfolding MerkleTree_new_fresh [OF assms(1)]
  by (auto split: sum.splits prod.splits)

lemma LazyTree_constructor_root:
  "LazyTree_getRoot (LazyTree_constructor H D) = Some (emptySubtree H D 0)"
  by (simp add: LazyTree_getRoot_def LazyTree_get_def calculateIndexDepth_def floor_log2.simps
      LazyTree_constructor_eq)

subsection \<open>The small instance, evaluated\<close>

lemma demo_compress:
  "compress demo_hasher (replicate 32 a) (replicate 32 b) = replicate 32 (3 * a + b + 1)"
  by (simp add: demo_hasher_def zip_replicate)

lemma demo_hash: "hash demo_hasher (demo_payload b) = replicate 32 b"
  by (simp add: demo_hasher_def demo_payload_def)

lemma demo_empty:
  "emptySubtree demo_hasher 2 (Suc (Suc 0)) = replicate 32 0"
  "emptySubtree demo_hasher 2 (Suc 0) = replicate 32 1"
  "emptySubtree demo_hasher 2 0 = replicate 32 5"
proof -
  have "emptySubtree demo_hasher 2 2 = replicate 32 0"
    by (simp add: emptySubtree_leaf demo_hasher_def Buffer_alloc_def LEAF_BYTES_def)
  then show 2: "emptySubtree demo_hasher 2 (Suc (Suc 0)) = replicate 32 0"
    by (simp add: numeral_2_eq_2)
  have "emptySubtree demo_hasher 2 (Suc 0) =
      compress demo_hasher (emptySubtree demo_hasher 2 (Suc (Suc 0))) (emptySubtree demo_hasher 2 (Suc (Suc 0)))"
    by (rule emptySubtree_node) simp
  then show 1: "emptySubtree demo_hasher 2 (Suc 0) = replicate 32 1"
    by (simp only: 2 demo_compress) simp
  have "emptySubtree demo_hasher 2 0 =
      compress demo_hasher (emptySubtree demo_hasher 2 (Suc 0)) (emptySubtree demo_hasher 2 (Suc 0))"
    by (rule emptySubtree_node) simp
  then show "emptySubtree demo_hasher 2 0 = replicate 32 5"
    by (simp only: 1 demo_compress) simp
qed

lemma demo_set_leaf:
  "LazyTree_set (LazyTree_constructor demo_hasher 2) 4 (replicate 32 7) =
     (Inr (), (LazyTree_constructor demo_hasher 2)
        \<lparr>nodes := [4 \<mapsto> replicate 32 7, 1 \<mapsto> replicate 32 8, 0 \<mapsto> replicate 32 26]\<rparr>)"
  by (simp add: LazyTree_set_def set_loop.simps [of _ 4] set_loop.simps [of _ 1]
      set_loop.simps [of _ 0] parentIdx_next_def LazyTree_get_def calculateIndexDepth_def
      floor_log2.simps LazyTree_constructor_eq demo_empty demo_compress)

lemma demo_tree_fields [simp]:
  "MerkleTree.hasher demo_tree = demo_hasher"
  "tree demo_tree = LazyTree_constructor demo_hasher 2"
  "name demo_tree = ''t''"
  by (simp_all add: demo_tree_def)

lemma demo_update_tree:
  "tree (fst (snd (updateElement demo_tree db 1 (demo_payload 7)))) =
     (LazyTree_constructor demo_hasher 2)
        \<lparr>nodes := [4 \<mapsto> replicate 32 7, 1 \<mapsto> replicate 32 8, 0 \<mapsto> replicate 32 26]\<rparr>"
proof -
  let ?u = "updateElement demo_tree db 1 (demo_payload 7)"
  have rng: "(0::int) \<le> 1" "(1::int) < 2 ^ MerkleTree.depth demo_tree"
    by simp_all
  have eq: "?u = (fst ?u, fst (snd ?u), snd (snd ?u))"
    by simp
  have "LazyTree_set (tree demo_tree) (elementTreeIndex demo_tree 1)
      (hash (MerkleTree.hasher demo_tree) (demo_payload 7)) = (Inr (), tree (fst (snd ?u)))"
    by (rule updateElement_handle(1) [OF demo_tree_inv rng eq])
  then show ?thesis
    by (simp add: elementTreeIndex_def demo_hash demo_set_leaf)
qed

lemma demo_update_root:
  "MerkleTree_getRoot (fst (snd (updateElement demo_tree db 1 (demo_payload 7))))
     = Some (replicate 32 26)"
  by (simp add: MerkleTree_getRoot_def LazyTree_getRoot_def LazyTree_get_def demo_update_tree)

lemma demo_tree_root: "MerkleTree_getRoot demo_tree = Some (replicate 32 5)"
  by (simp add: MerkleTree_getRoot_def LazyTree_constructor_root demo_empty)

subsection \<open>Restoring a tree\<close>

lemma set_loop_nodes_only: "\<exists>n'. snd (set_loop t p) = t\<lparr>nodes := n'\<rparr>"
proof (induction t p rule: set_loop.induct)
  case (1 t p)
  let ?q = "parentIdx_next p"
  show ?case
  proof (cases "0 \<le> p \<and> \<not> ?q < 0")
    case False
    then have "set_loop t p = (Inr (), t)"
      by (subst set_loop.simps) (auto simp: Let_def)
    then have "snd (set_loop t p) = t\<lparr>nodes := nodes t\<rparr>"
      by simp
    then show ?thesis by blast
  next
    case True
    then have p0: "0 \<le> p" and nq: "\<not> ?q < 0"
      by simp_all
    show ?thesis
    proof (cases "LazyTree_get t (?q * 2 + 1)")
      case None
      then have "set_loop t p = (Inl TypeError, t)"
        using True by (subst set_loop.simps) (simp add: Let_def)
      then have "snd (set_loop t p) = t\<lparr>nodes := nodes t\<rparr>"
        by simp
      then show ?thesis by blast
    next
      case (Some l)
      show ?thesis
      proof (cases "LazyTree_get t (?q * 2 + 2)")
        case None
        then have "set_loop t p = (Inl TypeError, t)"
          using True Some by (subst set_loop.simps) (simp add: Let_def)
        then have "snd (set_loop t p) = t\<lparr>nodes := nodes t\<rparr>"
          by simp
        then show ?thesis by blast
      next
        case r: (Some r)
        let ?t1 = "t\<lparr>nodes := (nodes t)(?q \<mapsto> compress (LazyTree.hasher t) l r)\<rparr>"
        have step: "set_loop t p = set_loop ?t1 ?q"
          using True Some r by (subst set_loop.simps) (simp add: Let_def)
        from "1.IH" [OF p0 refl nq refl Some r]
        obtain n' where "snd (set_loop ?t1 ?q) = ?t1\<lparr>nodes := n'\<rparr>"
          by blast
        then have "snd (set_loop t p) = t\<lparr>nodes := n'\<rparr>"
          using step by simp
        then show ?thesis by blast
      qed
    qed
  qed
qed

lemma LazyTree_set_nodes_only: "\<exists>n'. snd (LazyTree_set t i h) = t\<lparr>nodes := n'\<rparr>"
proof -
  obtain n' where "snd (set_loop (t\<lparr>nodes := (nodes t)(i \<mapsto> h)\<rparr>) i)
      = t\<lparr>nodes := (nodes t)(i \<mapsto> h)\<rparr>\<lparr>nodes := n'\<rparr>"
    using set_loop_nodes_only by blast
  then have "snd (LazyTree_set t i h) = t\<lparr>nodes := n'\<rparr>"
    by (simp add: LazyTree_set_def)
  then show ?thesis by blast
qed

lemma restore_records_fields:
  assumes "restore_records m es = Inr m'"
  shows "MerkleTree.depth m' = MerkleTree.depth m \<and> name m' = name m
    \<and> MerkleTree.hasher m' = MerkleTree.hasher m
    \<and> LazyTree.depth (tree m') = LazyTree.depth (tree m)
    \<and> LazyTree.hasher (tree m') = LazyTree.hasher (tree m)
    \<and> emptyHashes (tree m') = emptyHashes (tree m)"
  using assms
proof (induction es arbitrary: m)
  case Nil
  then show ?case by simp
next
  case (Cons e es)
  obtain key v where e: "e = (key, v)" by (cases e)
  show ?case
  proof (cases "parseInt key")
    case None
    with Cons.prems e have "restore_records m es = Inr m'"
      by simp
    then show ?thesis by (rule Cons.IH)
  next
    case (Some index)
    let ?s = "LazyTree_set (tree m) (elementTreeIndex m index) (Buffer_from_hex v)"
    obtain n' where n': "snd ?s = (tree m)\<lparr>nodes := n'\<rparr>"
      using LazyTree_set_nodes_only by blast
    from Cons.prems e Some have "restore_records (m\<lparr>tree := snd ?s\<rparr>) es = Inr m'"
      by (cases ?s) (auto split: sum.splits)
    from Cons.IH [OF this] show ?thesis
      by (simp add: n')
  qed
qed

lemma restore_records_ok:
  assumes "MerkleTree_inv m"
    and "\<forall>(key, v) \<in> set es. \<forall>index. parseInt key = Some index
           \<longrightarrow> 0 \<le> index \<and> index < 2 ^ MerkleTree.depth m"
  shows "restore_records m es = Inr (m\<lparr>tree := set_all (tree m) (replayed m es)\<rparr>)"
  using assms
proof (induction es arbitrary: m)
  case Nil
  then show ?case by (simp add: replayed_def)
next
  case (Cons e es)
  obtain key v where e: "e = (key, v)" by (cases e)
  have rest: "\<forall>(key, v) \<in> set es. \<forall>index. parseInt key = Some index
           \<longrightarrow> 0 \<le> index \<and> index < 2 ^ MerkleTree.depth m"
    using Cons.prems(2) by simp
  show ?case
  proof (cases "parseInt key")
    case None
    then have "replayed m (e # es) = replayed m es"
      by (simp add: replayed_def e map_filter_simps)
    moreover have "restore_records m (e # es) = restore_records m es"
      using None e by simp
    ultimately show ?thesis
      using Cons.IH [OF Cons.prems(1) rest] by simp
  next
    case (Some index)
    let ?idx = "elementTreeIndex m index" and ?h = "Buffer_from_hex v"
    let ?s = "LazyTree_set (tree m) ?idx ?h"
    let ?m1 = "m\<lparr>tree := snd ?s\<rparr>"
    from Cons.prems(2) e Some have rng: "0 \<le> index" "index < 2 ^ MerkleTree.depth m"
      by auto
    note r = elementTreeIndex_range [OF Cons.prems(1) rng]
    have inv: "LazyTree_inv (tree m)"
      using Cons.prems(1) by (simp add: MerkleTree_inv_def)
    note f = LazyTree_set_fields [OF inv r(1,3), of ?h]
    have inv1: "MerkleTree_inv ?m1"
      using Cons.prems(1) f by (simp add: MerkleTree_inv_def)
    have rest1: "\<forall>(key, v) \<in> set es. \<forall>index. parseInt key = Some index
           \<longrightarrow> 0 \<le> index \<and> index < 2 ^ MerkleTree.depth ?m1"
      using rest by simp
    have rp1: "replayed ?m1 es = replayed m es"
      by (simp add: replayed_def elementTreeIndex_def)
    have rp: "replayed m (e # es) = (?idx, ?h) # replayed m es"
      by (simp add: replayed_def e Some map_filter_simps)
    have "restore_records m (e # es) = restore_records ?m1 es"
      using e Some f(1) by (cases ?s) simp
    also have "\<dots> = Inr (?m1\<lparr>tree := set_all (tree ?m1) (replayed ?m1 es)\<rparr>)"
      by (rule Cons.IH [OF inv1 rest1])
    also have "\<dots> = Inr (m\<lparr>tree := set_all (tree m) (replayed m (e # es))\<rparr>)"
      by (simp add: rp rp1)
    finally show ?thesis .
  qed
qed

lemma set_all_inv:
  assumes "LazyTree_inv t"
  shows "LazyTree_inv (set_all t ws)"
  using assms
proof (induction ws arbitrary: t)
  case Nil
  then show ?case by simp
next
  case (Cons w ws)
  obtain j x where w: "w = (j, x)" by (cases w)
  obtain n' where "snd (LazyTree_set t j x) = t\<lparr>nodes := n'\<rparr>"
    using LazyTree_set_nodes_only by blast
  with Cons.prems have "LazyTree_inv (snd (LazyTree_set t j x))"
    by simp
  then show ?case
    using Cons.IH w by simp
qed

lemma MerkleTree_new_restore:
  assumes "db_get db nm = (Inr meta, db1)"
  shows "MerkleTree_new H db nm d =
     (case readUInt32LE meta 32 of
        Inl e \<Rightarrow> (Inl e, db1)
      | Inr dep \<Rightarrow>
          (case MerkleTree_constructor H nm dep of
             Inl e \<Rightarrow> (Inl e, db1)
           | Inr m \<Rightarrow>
               (case restoreElements m db1 of
                  (Inl e, db2) \<Rightarrow> (Inl e, db2)
                | (Inr m', db2) \<Rightarrow>
                    (case MerkleTree_getRoot m' of
                       None \<Rightarrow> (Inl TypeError, db2)
                     | Some r \<Rightarrow>
                         if r \<noteq> Buffer_slice meta 0 32 then (Inl RootMismatch, db2)
                         else (Inr m', db2)))))"
  using assms by (simp add: MerkleTree_new_def Let_def)

lemma MerkleTree_new_restore_depth:
  assumes "db_get db nm = (Inr meta, db1)" and "MerkleTree_new H db nm d = (Inr m, db')"
  shows "readUInt32LE meta 32 = Inr (MerkleTree.depth m)"
    and "LazyTree.depth (tree m) = MerkleTree.depth m"
    and "1 \<le> MerkleTree.depth m \<and> MerkleTree.depth m \<le> MAX_DEPTH"
proof -
  from assms(2) obtain D m0 where D: "readUInt32LE meta 32 = Inr D"
    and c: "MerkleTree_constructor H nm D = Inr m0"
    and r: "fst (restoreElements m0 db1) = Inr m"
    unfolding MerkleTree_new_restore [OF assms(1)]
    by (auto split: sum.splits prod.splits option.splits if_splits)
  from r obtain es where "restore_records m0 es = Inr m"
    by (auto simp: restoreElements_def split: prod.splits sum.splits)
  note f = restore_records_fields [OF this]
  note k = MerkleTree_constructor_inv [OF c]
  show "readUInt32LE meta 32 = Inr (MerkleTree.depth m)"
    using D f k(4) by simp
  show "LazyTree.depth (tree m) = MerkleTree.depth m"
    using f k(4,5) by simp
  show "1 \<le> MerkleTree.depth m \<and> MerkleTree.depth m \<le> MAX_DEPTH"
    using f k(1) by (simp add: MerkleTree_inv_def)
qed

lemma radixDigit_hexDigit:
  assumes "n < 16"
  shows "radixDigit 16 (hexDigit n) = Some n"
proof -
  from assms consider "n = 0" | "n = 1" | "n = 2" | "n = 3" | "n = 4" | "n = 5" | "n = 6" | "n = 7"
    | "n = 8" | "n = 9" | "n = 10" | "n = 11" | "n = 12" | "n = 13" | "n = 14" | "n = 15"
    by atomize_elim arith
  then show ?thesis
    by cases (simp_all add: hexDigit_def radixDigit_def digitValue_def)
qed

lemma Buffer_from_hex_toString_hex: "Buffer_from_hex (toString_hex buf) = buf"
proof (induction buf)
  case Nil
  then show ?case by (simp add: toString_hex_def)
next
  case (Cons b buf)
  have lt: "unat b < 256"
    using unsigned_less [of b, where 'a = nat] by simp
  then have hi: "unat b div 16 < 16" and lo: "unat b mod 16 < 16"
    by simp_all
  have "(of_nat (16 * (unat b div 16) + unat b mod 16) :: byte) = b"
    by simp
  with Cons show ?case
    by (simp add: toString_hex_def radixDigit_hexDigit [OF hi] radixDigit_hexDigit [OF lo])
qed

lemma parseInt_1: "parseInt ''1'' = Some 1"
  by (simp add: parseInt_def isWhiteSpace_def radixDigit_def digitValue_def map_filter_simps)

lemma updateElement_put_failure:
  assumes "MerkleTree_inv m" and "0 \<le> i" and "i < 2 ^ MerkleTree.depth m"
    and "faults db = Some msg # fs \<or> faults db = None # Some msg # fs"
  shows "fst (updateElement m db i v) = Inl (StoreError msg)"
proof -
  let ?h = "hash (MerkleTree.hasher m) v"
  obtain r m' db' where u: "updateElement m db i v = (r, m', db')"
    by (rule prod_cases3)
  note h = updateElement_handle [OF assms(1-3) u]
  have m': "m\<lparr>tree := tree m'\<rparr> = m'"
    using h(2) by simp
  from assms(4) have "r = Inl (StoreError msg)"
  proof
    assume f: "faults db = Some msg # fs"
    have "sublevel_put db (name m) (Number_toString i) (toString_hex ?h)
        = (Inl (StoreError msg), db\<lparr>faults := fs\<rparr>)"
      using f by (simp add: sublevel_put_def next_fault_def)
    then show ?thesis
      using u h(1) by (simp add: updateElement_def Let_def)
  next
    assume f: "faults db = None # Some msg # fs"
    let ?db1 = "db\<lparr>faults := Some msg # fs,
      sublevels := (sublevels db)(name m := alist_put (Number_toString i) (toString_hex ?h) (sublevels db (name m)))\<rparr>"
    have p1: "sublevel_put db (name m) (Number_toString i) (toString_hex ?h) = (Inr (), ?db1)"
      using f by (simp add: sublevel_put_def next_fault_def)
    obtain data where w: "writeMetaData m' ?db1 = db_put ?db1 (name m') data"
      using writeMetaData_put [OF h(3)] by blast
    have p2: "db_put ?db1 (name m') data = (Inl (StoreError msg), ?db1\<lparr>faults := fs\<rparr>)"
      by (simp add: db_put_def next_fault_def)
    show ?thesis
      using u h(1) p1 w p2 by (simp add: updateElement_def Let_def m')
  qed
  with u show ?thesis
    by simp
qed

lemma restoreElements_scan_failure:
  assumes "faults db = Some msg # fs"
  shows "restoreElements m db = (Inl (StoreError msg), db\<lparr>faults := fs\<rparr>)"
  using assms by (simp add: restoreElements_def sublevel_createReadStream_def next_fault_def)

lemma MerkleTree_new_scan_failure:
  assumes "db_get db nm = (Inr meta, db1)" and "readUInt32LE meta 32 = Inr D"
    and "1 \<le> D" and "D \<le> 32" and "faults db1 = Some msg # fs"
  shows "fst (MerkleTree_new H db nm d) = Inl (StoreError msg)"
proof -
  have "D \<le> MAX_DEPTH"
    using assms(4) by (simp add: MAX_DEPTH_def)
  with assms(3) have ctor: "MerkleTree_constructor H nm D =
      Inr \<lparr>MerkleTree.hasher = H, name = nm, depth = D, tree = LazyTree_constructor H D\<rparr>"
    by (rule MerkleTree_constructor_ok)
  show ?thesis
    unfolding MerkleTree_new_restore [OF assms(1)]
    by (simp add: assms(2) ctor restoreElements_scan_failure [OF assms(5)])
qed

lemma MerkleTree_new_put_failure:
  assumes "db_get db nm = (Inl e, db1)" and "1 \<le> dep" and "dep \<le> 32"
    and "faults db1 = Some msg # fs"
  shows "fst (MerkleTree_new H db nm (Some dep)) = Inl (StoreError msg)"
proof -
  let ?m = "\<lparr>MerkleTree.hasher = H, name = nm, depth = dep, tree = LazyTree_constructor H dep\<rparr>"
  have "dep \<le> MAX_DEPTH"
    using assms(3) by (simp add: MAX_DEPTH_def)
  with assms(2) have ctor: "MerkleTree_constructor H nm dep = Inr ?m"
    by (rule MerkleTree_constructor_ok)
  have inv: "MerkleTree_inv ?m"
    using ctor by (rule MerkleTree_constructor_inv(1))
  obtain data where w: "writeMetaData ?m db1 = db_put db1 (name ?m) data"
    using writeMetaData_put [OF inv] by blast
  have "db_put db1 (name ?m) data = (Inl (StoreError msg), db1\<lparr>faults := fs\<rparr>)"
    using assms(4) by (simp add: db_put_def next_fault_def)
  with w show ?thesis
    unfolding MerkleTree_new_fresh [OF assms(1)] by (simp add: ctor)
qed

lemma demo_saved_fields [simp]:
  "records (demo_saved root es fs) ''t'' = Some (root @ [2, 0, 0, 0, 0, 0, 0, 0])"
  "sublevels (demo_saved root es fs) ''t'' = es"
  "faults (demo_saved root es fs) = fs"
  by (simp_all add: demo_saved_def)

lemma demo_saved_get:
  "db_get (demo_saved root es []) ''t'' = (Inr (root @ [2, 0, 0, 0, 0, 0, 0, 0]), demo_saved root es [])"
  by (simp add: db_get_def next_fault_def)

lemma demo_saved_get_after:
  "db_get (demo_saved root es (None # fs)) ''t''
     = (Inr (root @ [2, 0, 0, 0, 0, 0, 0, 0]), demo_saved root es fs)"
  by (simp add: db_get_def next_fault_def) (simp add: demo_saved_def)

lemma demo_saved_get_fault:
  "db_get (demo_saved root es (Some msg # fs)) ''t'' = (Inl (StoreError msg), demo_saved root es fs)"
  by (simp add: db_get_def next_fault_def) (simp add: demo_saved_def)

lemma demo_saved_scan:
  "sublevel_createReadStream (demo_saved root es []) ''t'' = (Inr es, demo_saved root es [])"
  by (simp add: sublevel_createReadStream_def next_fault_def)

lemma demo_meta_depth: "readUInt32LE (replicate 32 a @ [2, 0, 0, 0, 0, 0, 0, 0]) 32 = Inr 2"
  by (simp add: readUInt32LE_def nth_append)

lemma demo_meta_root: "Buffer_slice (replicate 32 a @ [2, 0, 0, 0, 0, 0, 0, 0]) 0 32 = replicate 32 a"
  by (simp add: Buffer_slice_def)

lemma demo_tree_eq:
  "\<lparr>MerkleTree.hasher = demo_hasher, name = ''t'', depth = 2,
    tree = LazyTree_constructor demo_hasher 2\<rparr> = demo_tree"
  by (simp add: demo_tree_def)

lemma demo_replayed:
  "replayed demo_tree [(''1'', toString_hex (replicate 32 7))] = [(4, replicate 32 7)]"
  by (simp add: replayed_def map_filter_simps parseInt_1 elementTreeIndex_def
      Buffer_from_hex_toString_hex)

lemma demo_replayed_root:
  "MerkleTree_getRoot
     (demo_tree\<lparr>tree := set_all (tree demo_tree)
        (replayed demo_tree [(''1'', toString_hex (replicate 32 7))])\<rparr>) = Some (replicate 32 26)"
  by (simp add: demo_replayed demo_set_leaf MerkleTree_getRoot_def LazyTree_getRoot_def
      LazyTree_get_def)

lemma demo_reopen:
  "MerkleTree_new demo_hasher (demo_saved (replicate 32 5) [] []) ''t'' d
     = (Inr demo_tree, demo_saved (replicate 32 5) [] [])"
proof -
  have ctor: "MerkleTree_constructor demo_hasher ''t'' 2 = Inr demo_tree"
    unfolding demo_tree_eq [symmetric]
    by (rule MerkleTree_constructor_ok) (simp_all add: MAX_DEPTH_def)
  have re: "restoreElements demo_tree (demo_saved (replicate 32 5) [] [])
      = (Inr demo_tree, demo_saved (replicate 32 5) [] [])"
    by (simp add: restoreElements_def demo_saved_scan)
  show ?thesis
    unfolding MerkleTree_new_restore [OF demo_saved_get]
    by (simp add: demo_meta_depth demo_meta_root ctor re demo_tree_root)
qed

subsection \<open>Every handle satisfies the invariant\<close>

text \<open>
  Every handle that \<open>MerkleTree.new\<close> returns satisfies \<open>MerkleTree_inv\<close>, and
  \<open>updateElement\<close> keeps it for every index: the invariant is no restriction on the
  handles a caller can hold.
\<close>

lemma restore_records_inv:
  assumes "restore_records m es = Inr m'" and "MerkleTree_inv m"
  shows "MerkleTree_inv m'"
  using restore_records_fields [OF assms(1)] assms(2)
  by (simp add: MerkleTree_inv_def LazyTree_inv_def)

lemma MerkleTree_new_inv:
  assumes "MerkleTree_new H db nm d = (Inr m, db')"
  shows "MerkleTree_inv m"
proof -
  obtain got db1 where g: "db_get db nm = (got, db1)"
    by (cases "db_get db nm")
  show ?thesis
  proof (cases got)
    case (Inl e)
    with g have "db_get db nm = (Inl e, db1)" by simp
    from MerkleTree_new_fresh_result [OF this assms]
    show ?thesis by (rule MerkleTree_constructor_inv(1))
  next
    case (Inr meta)
    with g have g': "db_get db nm = (Inr meta, db1)" by simp
    from assms obtain D m0 where c: "MerkleTree_constructor H nm D = Inr m0"
      and r: "fst (restoreElements m0 db1) = Inr m"
      unfolding MerkleTree_new_restore [OF g']
      by (auto split: sum.splits prod.splits option.splits if_splits)
    from r obtain es where "restore_records m0 es = Inr m"
      by (auto simp: restoreElements_def split: prod.splits sum.splits)
    then show ?thesis
      using MerkleTree_constructor_inv(1) [OF c] by (rule restore_records_inv)
  qed
qed

lemma updateElement_inv:
  assumes "MerkleTree_inv m" and "updateElement m db i v = (r, m', db')"
  shows "MerkleTree_inv m'"
proof -
  let ?s = "LazyTree_set (tree m) (elementTreeIndex m i) (hash (MerkleTree.hasher m) v)"
  obtain n' where n': "snd ?s = (tree m)\<lparr>nodes := n'\<rparr>"
    using LazyTree_set_nodes_only by blast
  have "m' = m\<lparr>tree := snd ?s\<rparr>"
    using assms(2)
    by (cases ?s) (auto simp: updateElement_def Let_def split: sum.splits prod.splits)
  then show ?thesis
    using assms(1) by (simp add: n' MerkleTree_inv_def)
qed

section \<open>The claims\<close>

text \<open>
  C7: for every leaf node index of a tree of depth \<open>D\<close> (the indices from
  \<open>2 ^ D - 1\<close> to \<open>2 ^ (D + 1) - 2\<close>), one call of \<open>set\<close> succeeds and writes
  exactly \<open>D + 1\<close> explicit entries: the keys of the map afterwards are the keys before
  together with the leaf and the chain of its \<open>D\<close> ancestors, which are pairwise
  distinct and end at the root 0, and every other entry is untouched. So the map grows
  by at most \<open>D + 1\<close> keys per call, a fresh engine holds exactly \<open>D + 1\<close> keys after
  one call, and after any sequence of leaf writes the map has grown by at most
  (number of writes) times \<open>D + 1\<close>.
\<close>

theorem set_writes_leaf_and_ancestors:
  assumes "LazyTree_inv t"
    and "2 ^ LazyTree.depth t - 1 \<le> i" and "i \<le> 2 ^ (LazyTree.depth t + 1) - 2"
    and "LazyTree_set t i h = (r, t')"
  shows "r = Inr ()
    \<and> dom (nodes t') = dom (nodes t) \<union> set (i # ancestors i)
    \<and> (\<forall>k. k \<notin> set (i # ancestors i) \<longrightarrow> nodes t' k = nodes t k)
    \<and> distinct (i # ancestors i)
    \<and> length (i # ancestors i) = LazyTree.depth t + 1
    \<and> 0 \<in> set (i # ancestors i)
    \<and> card (dom (nodes t')) \<le> card (dom (nodes t)) + (LazyTree.depth t + 1)
    \<and> (nodes t = Map.empty \<longrightarrow> card (dom (nodes t')) = LazyTree.depth t + 1)
    \<and> (\<forall>ws. (\<forall>(j, x) \<in> set ws. 2 ^ LazyTree.depth t - 1 \<le> j \<and> j \<le> 2 ^ (LazyTree.depth t + 1) - 2)
           \<longrightarrow> card (dom (nodes (set_all t ws)))
                 \<le> card (dom (nodes t)) + length ws * (LazyTree.depth t + 1))"
proof -
  note leaf = leaf_node_depth [OF assms(2,3)]
  have d: "floor_log2 (nat (i + 1)) \<le> LazyTree.depth t"
    using leaf(2) by simp
  have r: "r = Inr ()"
    using LazyTree_set_fields(1) [OF assms(1) leaf(1) d, of h] assms(4) by simp
  have dom_eq: "dom (nodes t') = dom (nodes t) \<union> set (i # ancestors i)"
    by (rule LazyTree_set_dom(1) [OF assms(1) leaf(1) d assms(4)])
  have off: "\<forall>k. k \<notin> set (i # ancestors i) \<longrightarrow> nodes t' k = nodes t k"
    using LazyTree_set_dom(2) [OF assms(1) leaf(1) d assms(4)] by blast
  have self: "i \<notin> set (ancestors i)"
    using ancestors_bounds [of i i] by auto
  have dist: "distinct (i # ancestors i)"
    using self ancestors_distinct [of i] by simp
  have len: "length (i # ancestors i) = LazyTree.depth t + 1"
    using ancestors_length [OF leaf(1)] leaf(2) by simp
  have root: "0 \<in> set (i # ancestors i)"
    using ancestors_root [of i] leaf(1) by (cases "i = 0") simp_all
  have t': "t' = snd (LazyTree_set t i h)"
    using assms(4) by simp
  have card_le: "card (dom (nodes t')) \<le> card (dom (nodes t)) + (LazyTree.depth t + 1)"
    unfolding t' by (rule LazyTree_set_card [OF assms(1-3)])
  have fresh: "nodes t = Map.empty \<longrightarrow> card (dom (nodes t')) = LazyTree.depth t + 1"
  proof
    assume "nodes t = Map.empty"
    then have "dom (nodes t') = set (i # ancestors i)"
      using dom_eq by simp
    then show "card (dom (nodes t')) = LazyTree.depth t + 1"
      using distinct_card [OF dist] len by simp
  qed
  have seq: "\<forall>ws. (\<forall>(j, x) \<in> set ws. 2 ^ LazyTree.depth t - 1 \<le> j \<and> j \<le> 2 ^ (LazyTree.depth t + 1) - 2)
           \<longrightarrow> card (dom (nodes (set_all t ws)))
                 \<le> card (dom (nodes t)) + length ws * (LazyTree.depth t + 1)"
    using set_all_card [OF assms(1)] by blast
  from r dom_eq off dist len root card_le fresh seq show ?thesis
    by (intro conjI)
qed

theorem set_writes_leaf_and_ancestors_witness:
  "LazyTree_inv (LazyTree_constructor demo_hasher 2)
   \<and> 2 ^ LazyTree.depth (LazyTree_constructor demo_hasher 2) - 1 \<le> (3::int)
   \<and> (3::int) \<le> 2 ^ (LazyTree.depth (LazyTree_constructor demo_hasher 2) + 1) - 2
   \<and> fst (LazyTree_set (LazyTree_constructor demo_hasher 2) 3 [1]) = Inr ()
   \<and> dom (nodes (snd (LazyTree_set (LazyTree_constructor demo_hasher 2) 3 [1]))) = {3, 1, 0}
   \<and> card (dom (nodes (snd (LazyTree_set (LazyTree_constructor demo_hasher 2) 3 [1])))) = 3"
proof -
  let ?t = "LazyTree_constructor demo_hasher 2"
  have inv: "LazyTree_inv ?t"
    by (rule LazyTree_inv_constructor)
  have lo: "2 ^ LazyTree.depth ?t - 1 \<le> (3::int)" and hi: "(3::int) \<le> 2 ^ (LazyTree.depth ?t + 1) - 2"
    by simp_all
  have eq: "LazyTree_set ?t 3 [1] = (fst (LazyTree_set ?t 3 [1]), snd (LazyTree_set ?t 3 [1]))"
    by simp
  have anc: "ancestors 3 = [1, 0]"
    by (simp add: ancestors.simps [of 3] ancestors.simps [of 1] ancestors.simps [of 0]
        parentIdx_next_def)
  from set_writes_leaf_and_ancestors [OF inv lo hi eq] inv lo hi anc show ?thesis
    by simp
qed

text \<open>
  C1: on a handle of a valid depth \<open>D\<close> and for an external index \<open>i\<close> in
  \<open>[0, 2 ^ D)\<close> and any payload, after \<open>updateElement i v\<close> (whatever the store did)
  \<open>getHashPath i\<close> has exactly \<open>D\<close> pairs; its entries are the children pairs of the
  ancestors of the leaf in leaf-to-root order (the ancestors have the depths
  \<open>D - 1, ..., 0\<close>, so the pairs go from the leaf level up to the level directly below
  the root); and starting from \<open>hash v\<close> and compressing through each recorded pair
  gives exactly the digest that \<open>getRoot\<close> returns, which is also the result of a
  successful \<open>updateElement\<close>.
\<close>

theorem updateElement_then_getHashPath:
  assumes "MerkleTree_inv m" and "0 \<le> i" and "i < 2 ^ MerkleTree.depth m"
    and "updateElement m db i v = (r, m', db')"
  shows "length (MerkleTree_getHashPath m' i) = MerkleTree.depth m
    \<and> MerkleTree_getHashPath m' i =
        map (\<lambda>a. (LazyTree_get (tree m') (a * 2 + 1), LazyTree_get (tree m') (a * 2 + 2)))
          (ancestors (elementTreeIndex m' i))
    \<and> map (\<lambda>a. floor_log2 (nat (a + 1))) (ancestors (elementTreeIndex m' i))
        = rev [0 ..< MerkleTree.depth m]
    \<and> (\<exists>root. MerkleTree_getRoot m' = Some root
          \<and> reconstructRoot (MerkleTree.hasher m) (elementTreeIndex m' i)
               (hash (MerkleTree.hasher m) v) (MerkleTree_getHashPath m' i) = Some root)
    \<and> (\<forall>x. r = Inr x \<longrightarrow> x = MerkleTree_getRoot m')"
proof -
  let ?idx = "elementTreeIndex m i" and ?h = "hash (MerkleTree.hasher m) v"
  note h = updateElement_handle [OF assms]
  note rng = elementTreeIndex_range [OF assms(1-3)]
  have inv: "LazyTree_inv (tree m)" and hs: "LazyTree.hasher (tree m) = MerkleTree.hasher m"
    using assms(1) by (simp_all add: MerkleTree_inv_def)
  obtain n' where s: "LazyTree_set (tree m) ?idx ?h = (Inr (), (tree m)\<lparr>nodes := n'\<rparr>)"
    and at: "n' ?idx = Some ?h"
    and off: "\<And>k. k \<noteq> ?idx \<Longrightarrow> k \<notin> set (ancestors ?idx) \<Longrightarrow> n' k = nodes (tree m) k"
    and cons: "\<And>a. a \<in> set (ancestors ?idx) \<Longrightarrow> node_consistent ((tree m)\<lparr>nodes := n'\<rparr>) a"
    by (rule LazyTree_set_char [OF inv rng(1,3), of ?h]) blast
  have t': "tree m' = (tree m)\<lparr>nodes := n'\<rparr>"
    using s h(1) by simp
  have idx': "elementTreeIndex m' i = ?idx"
    using h(2) by (metis (no_types) elementTreeIndex_def MerkleTree.select_convs(3)
        MerkleTree.surjective MerkleTree.update_convs(4))
  have path: "MerkleTree_getHashPath m' i =
        map (\<lambda>a. (LazyTree_get (tree m') (a * 2 + 1), LazyTree_get (tree m') (a * 2 + 2)))
          (ancestors ?idx)"
    by (simp add: MerkleTree_getHashPath_def LazyTree_getPath_eq idx')
  have len: "length (MerkleTree_getHashPath m' i) = MerkleTree.depth m"
    unfolding path using ancestors_length [OF rng(1)] rng(2) by simp
  have lev: "map (\<lambda>a. floor_log2 (nat (a + 1))) (ancestors ?idx) = rev [0 ..< MerkleTree.depth m]"
    using ancestors_depths [OF rng(1)] rng(2) by simp
  have leaf: "LazyTree_get (tree m') ?idx = Some ?h"
    using at t' by (simp add: LazyTree_get_def)
  have cons': "\<And>a. a \<in> set (ancestors ?idx) \<Longrightarrow> node_consistent (tree m') a"
    using cons t' by simp
  have rec: "reconstructRoot (LazyTree.hasher (tree m')) ?idx ?h
           (map (\<lambda>a. (LazyTree_get (tree m') (a * 2 + 1), LazyTree_get (tree m') (a * 2 + 2)))
              (ancestors ?idx))
         = LazyTree_get (tree m') 0"
    using cons' rng(1) leaf by (rule reconstructRoot_path)
  have hs': "LazyTree.hasher (tree m') = MerkleTree.hasher m"
    using hs t' by simp
  have "LazyTree_inv (tree m')"
    using inv t' by simp
  then obtain root where root: "MerkleTree_getRoot m' = Some root"
    using LazyTree_getRoot_defined [of "tree m'"] by (auto simp: MerkleTree_getRoot_def)
  have "reconstructRoot (MerkleTree.hasher m) ?idx ?h (MerkleTree_getHashPath m' i) = Some root"
    using rec root unfolding path hs'
    by (simp add: MerkleTree_getRoot_def LazyTree_getRoot_def)
  with root have ex: "\<exists>root. MerkleTree_getRoot m' = Some root
          \<and> reconstructRoot (MerkleTree.hasher m) (elementTreeIndex m' i)
               ?h (MerkleTree_getHashPath m' i) = Some root"
    unfolding idx' by blast
  have ret: "\<forall>x. r = Inr x \<longrightarrow> x = MerkleTree_getRoot m'"
    using h(4) by blast
  from len path lev ex ret show ?thesis
    unfolding idx' by (intro conjI)
qed

theorem updateElement_then_getHashPath_witness:
  "MerkleTree_inv demo_tree \<and> (0::int) \<le> 1 \<and> (1::int) < 2 ^ MerkleTree.depth demo_tree
   \<and> length (MerkleTree_getHashPath
        (fst (snd (updateElement demo_tree (demo_store []) 1 (demo_payload 7)))) 1) = 2
   \<and> (\<exists>root. MerkleTree_getRoot (fst (snd (updateElement demo_tree (demo_store []) 1 (demo_payload 7))))
          = Some root
        \<and> reconstructRoot demo_hasher 4 (hash demo_hasher (demo_payload 7))
            (MerkleTree_getHashPath
               (fst (snd (updateElement demo_tree (demo_store []) 1 (demo_payload 7)))) 1)
          = Some root)"
proof -
  let ?u = "updateElement demo_tree (demo_store []) 1 (demo_payload 7)"
  have rng: "(0::int) \<le> 1" "(1::int) < 2 ^ MerkleTree.depth demo_tree"
    by simp_all
  have eq: "?u = (fst ?u, fst (snd ?u), snd (snd ?u))"
    by simp
  have h: "MerkleTree.hasher demo_tree = demo_hasher"
    by (simp add: demo_tree_def)
  have "fst (snd ?u) = demo_tree\<lparr>tree := tree (fst (snd ?u))\<rparr>"
    by (rule updateElement_handle(2) [OF demo_tree_inv rng eq])
  then have "elementTreeIndex (fst (snd ?u)) 1 = elementTreeIndex demo_tree 1"
    by (metis (no_types) elementTreeIndex_def MerkleTree.select_convs(3)
        MerkleTree.surjective MerkleTree.update_convs(4))
  then have idx: "elementTreeIndex (fst (snd ?u)) 1 = 4"
    by (simp add: elementTreeIndex_def)
  note T = updateElement_then_getHashPath [OF demo_tree_inv rng eq, unfolded idx h]
  from T have "length (MerkleTree_getHashPath (fst (snd ?u)) 1) = MerkleTree.depth demo_tree"
    by (elim conjE)
  then have a: "length (MerkleTree_getHashPath (fst (snd ?u)) 1) = 2"
    by simp
  from T have b: "\<exists>root. MerkleTree_getRoot (fst (snd ?u)) = Some root
        \<and> reconstructRoot demo_hasher 4 (hash demo_hasher (demo_payload 7))
            (MerkleTree_getHashPath (fst (snd ?u)) 1) = Some root"
    by (elim conjE)
  from demo_tree_inv rng a b show ?thesis
    by (intro conjI)
qed

text \<open>
  C5: on a handle of a valid depth and for an external index in range, a second
  \<open>updateElement\<close> with the same index and payload leaves the handle exactly as the
  first one left it (whatever the store did in either call), so \<open>getRoot\<close> is the same
  and two successful calls return the same root. At the engine level, for every node
  index inside the tree, calling \<open>set\<close> again with the same digest at the same index
  succeeds and leaves the whole node map, hence every explicit ancestor digest, as it was.
\<close>

theorem updateElement_idempotent:
  assumes "MerkleTree_inv m" and "0 \<le> i" and "i < 2 ^ MerkleTree.depth m"
    and "updateElement m db i v = (r1, m1, db1)"
    and "updateElement m1 dbx i v = (r2, m2, db2)"
  shows "m2 = m1
    \<and> MerkleTree_getRoot m2 = MerkleTree_getRoot m1
    \<and> (\<forall>x y. r1 = Inr x \<and> r2 = Inr y \<longrightarrow> x = y)
    \<and> LazyTree_set (tree m1) (elementTreeIndex m i) (hash (MerkleTree.hasher m) v)
        = (Inr (), tree m1)
    \<and> (\<forall>t k d r t'. LazyTree_inv t \<and> 0 \<le> k \<and> floor_log2 (nat (k + 1)) \<le> LazyTree.depth t
          \<and> LazyTree_set t k d = (r, t') \<longrightarrow> LazyTree_set t' k d = (Inr (), t'))"
proof -
  let ?idx = "elementTreeIndex m i" and ?h = "hash (MerkleTree.hasher m) v"
  note h1 = updateElement_handle [OF assms(1-4)]
  note f1 = updateElement_handle_fields [OF h1(2)]
  note rng = elementTreeIndex_range [OF assms(1-3)]
  have inv: "LazyTree_inv (tree m)"
    using assms(1) by (simp add: MerkleTree_inv_def)
  have r1': "i < 2 ^ MerkleTree.depth m1"
    using assms(3) f1(1) by simp
  note h2 = updateElement_handle [OF h1(3) assms(2) r1' assms(5)]
  have again: "LazyTree_set (tree m1) ?idx ?h = (Inr (), tree m1)"
    using inv rng(1,3) h1(1) by (rule LazyTree_set_idem)
  have "LazyTree_set (tree m1) ?idx ?h = (Inr (), tree m2)"
    using h2(1) f1(2) f1(4) [of i] by simp
  with again have t: "tree m2 = tree m1"
    by simp
  have "m2 = m1\<lparr>tree := tree m1\<rparr>"
    using h2(2) t by simp
  then have same: "m2 = m1"
    by simp
  have ret: "\<forall>x y. r1 = Inr x \<and> r2 = Inr y \<longrightarrow> x = y"
    using h1(4) h2(4) same by blast
  have engine: "\<forall>t k d r t'. LazyTree_inv t \<and> 0 \<le> k \<and> floor_log2 (nat (k + 1)) \<le> LazyTree.depth t
          \<and> LazyTree_set t k d = (r, t') \<longrightarrow> LazyTree_set t' k d = (Inr (), t')"
    using LazyTree_set_idem by blast
  have roots: "MerkleTree_getRoot m2 = MerkleTree_getRoot m1"
    using same by simp
  from same roots ret again engine show ?thesis
    by (intro conjI)
qed

theorem updateElement_idempotent_witness:
  "MerkleTree_inv demo_tree \<and> (0::int) \<le> 1 \<and> (1::int) < 2 ^ MerkleTree.depth demo_tree
   \<and> fst (snd (updateElement
         (fst (snd (updateElement demo_tree (demo_store []) 1 (demo_payload 7))))
         (snd (snd (updateElement demo_tree (demo_store []) 1 (demo_payload 7))))
         1 (demo_payload 7)))
      = fst (snd (updateElement demo_tree (demo_store []) 1 (demo_payload 7)))
   \<and> MerkleTree_getRoot (fst (snd (updateElement
         (fst (snd (updateElement demo_tree (demo_store []) 1 (demo_payload 7))))
         (snd (snd (updateElement demo_tree (demo_store []) 1 (demo_payload 7))))
         1 (demo_payload 7))))
      = Some (replicate 32 26)"
proof -
  let ?u1 = "updateElement demo_tree (demo_store []) 1 (demo_payload 7)"
  let ?u2 = "updateElement (fst (snd ?u1)) (snd (snd ?u1)) 1 (demo_payload 7)"
  have rng: "(0::int) \<le> 1" "(1::int) < 2 ^ MerkleTree.depth demo_tree"
    by simp_all
  have e1: "?u1 = (fst ?u1, fst (snd ?u1), snd (snd ?u1))"
    and e2: "?u2 = (fst ?u2, fst (snd ?u2), snd (snd ?u2))"
    by simp_all
  note T = updateElement_idempotent [OF demo_tree_inv rng e1 e2]
  from T have same: "fst (snd ?u2) = fst (snd ?u1)"
    by (elim conjE)
  have "MerkleTree_getRoot (fst (snd ?u2)) = Some (replicate 32 26)"
    unfolding same by (rule demo_update_root)
  with demo_tree_inv rng same show ?thesis
    by (intro conjI)
qed

text \<open>
  C6: on a handle of a valid depth and for two distinct external indices in range,
  updating leaf \<open>i\<close> and then leaf \<open>j\<close> leaves the same handle, and so the same root,
  as updating leaf \<open>j\<close> and then leaf \<open>i\<close>; two successful second calls return the
  same root.
\<close>

theorem updateElement_order_independent:
  assumes "MerkleTree_inv m"
    and "0 \<le> i" and "i < 2 ^ MerkleTree.depth m"
    and "0 \<le> j" and "j < 2 ^ MerkleTree.depth m"
    and "i \<noteq> j"
    and "updateElement m da i vi = (r1, m1, da1)" and "updateElement m1 da1' j vj = (r2, m2, da2)"
    and "updateElement m db j vj = (s1, n1, db1)" and "updateElement n1 db1' i vi = (s2, n2, db2)"
  shows "m2 = n2
    \<and> MerkleTree_getRoot m2 = MerkleTree_getRoot n2
    \<and> (\<forall>x y. r2 = Inr x \<and> s2 = Inr y \<longrightarrow> x = y)"
proof -
  let ?i = "elementTreeIndex m i" and ?j = "elementTreeIndex m j"
  let ?hi = "hash (MerkleTree.hasher m) vi" and ?hj = "hash (MerkleTree.hasher m) vj"
  have inv: "LazyTree_inv (tree m)"
    using assms(1) by (simp add: MerkleTree_inv_def)
  note ri = elementTreeIndex_range [OF assms(1,2,3)]
  note rj = elementTreeIndex_range [OF assms(1,4,5)]
  note a1 = updateElement_handle [OF assms(1,2,3) assms(7)]
  note fa = updateElement_handle_fields [OF a1(2)]
  note b1 = updateElement_handle [OF assms(1,4,5) assms(9)]
  note fb = updateElement_handle_fields [OF b1(2)]
  have j1: "j < 2 ^ MerkleTree.depth m1" and i1: "i < 2 ^ MerkleTree.depth n1"
    using assms(3,5) fa(1) fb(1) by simp_all
  note a2 = updateElement_handle [OF a1(3) assms(4) j1 assms(8)]
  note b2 = updateElement_handle [OF b1(3) assms(2) i1 assms(10)]
  have sij: "LazyTree_set (tree m1) ?j ?hj = (Inr (), tree m2)"
    using a2(1) fa(2) fa(4) [of j] by simp
  have sji: "LazyTree_set (tree n1) ?i ?hi = (Inr (), tree n2)"
    using b2(1) fb(2) fb(4) [of i] by simp
  have ne: "?i \<noteq> ?j"
    using assms(6) by (simp add: elementTreeIndex_def)
  have nij: "?i \<notin> set (ancestors ?j)" and nji: "?j \<notin> set (ancestors ?i)"
    using ri(2) rj(2) by (simp_all add: same_depth_not_ancestor)
  have t: "tree m2 = tree n2"
    using LazyTree_set_commute [OF inv ri(1,3) rj(1,3) ne nij nji a1(1) sij b1(1) sji]
    by simp
  have "m2 = m1\<lparr>tree := tree m2\<rparr>" and "m1 = m\<lparr>tree := tree m1\<rparr>"
    by (rule a2(2), rule a1(2))
  then have m2: "m2 = m\<lparr>tree := tree m2\<rparr>"
    by (metis (no_types) MerkleTree.surjective MerkleTree.update_convs(4))
  have "n2 = n1\<lparr>tree := tree n2\<rparr>" and "n1 = m\<lparr>tree := tree n1\<rparr>"
    by (rule b2(2), rule b1(2))
  then have n2: "n2 = m\<lparr>tree := tree n2\<rparr>"
    by (metis (no_types) MerkleTree.surjective MerkleTree.update_convs(4))
  have same: "m2 = n2"
    by (subst m2, subst n2) (simp add: t)
  have ret: "\<forall>x y. r2 = Inr x \<and> s2 = Inr y \<longrightarrow> x = y"
    using a2(4) b2(4) same by blast
  from same ret show ?thesis
    by simp
qed

theorem updateElement_order_independent_witness:
  "MerkleTree_inv demo_tree
   \<and> (0::int) \<le> 1 \<and> (1::int) < 2 ^ MerkleTree.depth demo_tree
   \<and> (0::int) \<le> 2 \<and> (2::int) < 2 ^ MerkleTree.depth demo_tree \<and> (1::int) \<noteq> 2
   \<and> fst (snd (updateElement
         (fst (snd (updateElement demo_tree (demo_store []) 1 (demo_payload 7))))
         (snd (snd (updateElement demo_tree (demo_store []) 1 (demo_payload 7))))
         2 (demo_payload 9)))
      = fst (snd (updateElement
         (fst (snd (updateElement demo_tree (demo_store []) 2 (demo_payload 9))))
         (snd (snd (updateElement demo_tree (demo_store []) 2 (demo_payload 9))))
         1 (demo_payload 7)))"
proof -
  let ?a1 = "updateElement demo_tree (demo_store []) 1 (demo_payload 7)"
  let ?a2 = "updateElement (fst (snd ?a1)) (snd (snd ?a1)) 2 (demo_payload 9)"
  let ?b1 = "updateElement demo_tree (demo_store []) 2 (demo_payload 9)"
  let ?b2 = "updateElement (fst (snd ?b1)) (snd (snd ?b1)) 1 (demo_payload 7)"
  have r1: "(0::int) \<le> 1" "(1::int) < 2 ^ MerkleTree.depth demo_tree"
    and r2: "(0::int) \<le> 2" "(2::int) < 2 ^ MerkleTree.depth demo_tree"
    and ne: "(1::int) \<noteq> 2"
    by simp_all
  have e1: "?a1 = (fst ?a1, fst (snd ?a1), snd (snd ?a1))"
    and e2: "?a2 = (fst ?a2, fst (snd ?a2), snd (snd ?a2))"
    and e3: "?b1 = (fst ?b1, fst (snd ?b1), snd (snd ?b1))"
    and e4: "?b2 = (fst ?b2, fst (snd ?b2), snd (snd ?b2))"
    by simp_all
  note T = updateElement_order_independent [OF demo_tree_inv r1 r2 ne e1 e2 e3 e4]
  from T have "fst (snd ?a2) = fst (snd ?b2)"
    by (elim conjE)
  with demo_tree_inv r1 r2 ne show ?thesis
    by (intro conjI)
qed

text \<open>
  C10: \<open>updateElement\<close> sets the leaf in the engine before it writes to the store. On a
  handle of a valid depth and for an index in range, whatever the outcome of the call the
  handle it leaves holds the engine after the \<open>set\<close>. When the write of the leaf record
  fails the call fails with that store error and the records of the store are untouched;
  when the write of the metadata fails the call fails with that store error; every failure
  of the call is a store error. The handle is the one that the same call leaves on any
  other store, in particular on one that does not fail, and its \<open>getRoot\<close> is the root
  that a successful call returns: nothing is rolled back.
\<close>

theorem updateElement_failure_keeps_engine_update:
  assumes "MerkleTree_inv m" and "0 \<le> i" and "i < 2 ^ MerkleTree.depth m"
    and "updateElement m db i v = (r, m', db')"
  shows "LazyTree_set (tree m) (elementTreeIndex m i) (hash (MerkleTree.hasher m) v)
           = (Inr (), tree m')
    \<and> m' = m\<lparr>tree := tree m'\<rparr>
    \<and> (\<forall>msg fs. faults db = Some msg # fs
          \<longrightarrow> r = Inl (StoreError msg) \<and> db' = db\<lparr>faults := fs\<rparr>)
    \<and> (\<forall>msg fs. faults db = None # Some msg # fs \<longrightarrow> r = Inl (StoreError msg))
    \<and> (\<forall>e. r = Inl e \<longrightarrow> (\<exists>msg. e = StoreError msg))
    \<and> (\<forall>dbx rx mx dbx'. updateElement m dbx i v = (rx, mx, dbx')
          \<longrightarrow> mx = m' \<and> (\<forall>x. rx = Inr x \<longrightarrow> x = MerkleTree_getRoot m'))"
proof -
  let ?idx = "elementTreeIndex m i" and ?h = "hash (MerkleTree.hasher m) v"
  note h = updateElement_handle [OF assms]
  have first: "\<forall>msg fs. faults db = Some msg # fs
          \<longrightarrow> r = Inl (StoreError msg) \<and> db' = db\<lparr>faults := fs\<rparr>"
  proof (intro allI impI)
    fix msg fs
    assume f: "faults db = Some msg # fs"
    have "sublevel_put db (name m) (Number_toString i) (toString_hex ?h)
        = (Inl (StoreError msg), db\<lparr>faults := fs\<rparr>)"
      using f by (simp add: sublevel_put_def next_fault_def)
    then show "r = Inl (StoreError msg) \<and> db' = db\<lparr>faults := fs\<rparr>"
      using assms(4) h(1) by (simp add: updateElement_def Let_def)
  qed
  have second: "\<forall>msg fs. faults db = None # Some msg # fs \<longrightarrow> r = Inl (StoreError msg)"
  proof (intro allI impI)
    fix msg fs
    assume f: "faults db = None # Some msg # fs"
    let ?db1 = "db\<lparr>faults := Some msg # fs,
      sublevels := (sublevels db)(name m := alist_put (Number_toString i) (toString_hex ?h) (sublevels db (name m)))\<rparr>"
    have p1: "sublevel_put db (name m) (Number_toString i) (toString_hex ?h) = (Inr (), ?db1)"
      using f by (simp add: sublevel_put_def next_fault_def)
    obtain data where w: "writeMetaData m' ?db1 = db_put ?db1 (name m') data"
      using writeMetaData_put [OF h(3)] by blast
    have p2: "db_put ?db1 (name m') data = (Inl (StoreError msg), ?db1\<lparr>faults := fs\<rparr>)"
      by (simp add: db_put_def next_fault_def)
    have m': "m\<lparr>tree := tree m'\<rparr> = m'"
      using h(2) by simp
    show "r = Inl (StoreError msg)"
      using assms(4) h(1) p1 w p2 by (simp add: updateElement_def Let_def m')
  qed
  have err: "\<forall>e. r = Inl e \<longrightarrow> (\<exists>msg. e = StoreError msg)"
    using h(5) by blast
  have other: "\<forall>dbx rx mx dbx'. updateElement m dbx i v = (rx, mx, dbx')
          \<longrightarrow> mx = m' \<and> (\<forall>x. rx = Inr x \<longrightarrow> x = MerkleTree_getRoot m')"
  proof (intro allI impI)
    fix dbx rx mx dbx'
    assume u: "updateElement m dbx i v = (rx, mx, dbx')"
    note k = updateElement_handle [OF assms(1-3) u]
    have "tree mx = tree m'"
      using k(1) h(1) by simp
    then have "mx = m'"
      using k(2) h(2) by simp
    with k(4) show "mx = m' \<and> (\<forall>x. rx = Inr x \<longrightarrow> x = MerkleTree_getRoot m')"
      by blast
  qed
  from h(1) h(2) first second err other show ?thesis
    by (intro conjI)
qed

theorem updateElement_failure_keeps_engine_update_witness:
  "MerkleTree_inv demo_tree \<and> (0::int) \<le> 1 \<and> (1::int) < 2 ^ MerkleTree.depth demo_tree
   \<and> fst (updateElement demo_tree (demo_store [Some ''EIO'']) 1 (demo_payload 7))
        = Inl (StoreError ''EIO'')
   \<and> MerkleTree_getRoot demo_tree = Some (replicate 32 5)
   \<and> MerkleTree_getRoot
        (fst (snd (updateElement demo_tree (demo_store [Some ''EIO'']) 1 (demo_payload 7))))
        = Some (replicate 32 26)"
proof -
  let ?u = "updateElement demo_tree (demo_store [Some ''EIO'']) 1 (demo_payload 7)"
  have rng: "(0::int) \<le> 1" "(1::int) < 2 ^ MerkleTree.depth demo_tree"
    by simp_all
  have eq: "?u = (fst ?u, fst (snd ?u), snd (snd ?u))"
    by simp
  have f: "faults (demo_store [Some ''EIO'']) = Some ''EIO'' # []"
    by (simp add: demo_store_def)
  note T = updateElement_failure_keeps_engine_update [OF demo_tree_inv rng eq]
  from T have "\<forall>msg fs. faults (demo_store [Some ''EIO'']) = Some msg # fs
          \<longrightarrow> fst ?u = Inl (StoreError msg)
              \<and> snd (snd ?u) = (demo_store [Some ''EIO''])\<lparr>faults := fs\<rparr>"
    by (elim conjE)
  with f have r: "fst ?u = Inl (StoreError ''EIO'')"
    by blast
  from demo_tree_inv rng r demo_tree_root demo_update_root [of "demo_store [Some ''EIO'']"]
  show ?thesis
    by (intro conjI)
qed

text \<open>
  C3: for every depth \<open>D\<close> from 1 to 32, the table of empty-subtree digests has the hash
  of 64 zero bytes at depth \<open>D\<close> and the compression of the next entry with itself at
  every depth below; the engine that the constructor builds holds exactly this table; and
  a tree opened on a store without a metadata record for its name has the entry of depth
  0 as its root. Such an open succeeds when the store does not fail.
\<close>

theorem fresh_tree_root_is_empty_digest:
  assumes "1 \<le> D" and "D \<le> 32"
  shows "emptySubtree H D D = hash H (replicate 64 0)
    \<and> (\<forall>d<D. emptySubtree H D d
          = compress H (emptySubtree H D (d + 1)) (emptySubtree H D (d + 1)))
    \<and> (\<exists>m. MerkleTree_constructor H nm D = Inr m
          \<and> MerkleTree_getRoot m = Some (emptySubtree H D 0)
          \<and> (\<forall>d\<le>D. emptyHashes (tree m) d = Some (emptySubtree H D d)))
    \<and> (\<forall>db m db'. records db nm = None \<and> MerkleTree_new H db nm (Some D) = (Inr m, db')
          \<longrightarrow> MerkleTree_getRoot m = Some (emptySubtree H D 0))
    \<and> (\<forall>db. records db nm = None \<and> faults db = []
          \<longrightarrow> (\<exists>m db'. MerkleTree_new H db nm (Some D) = (Inr m, db')))"
proof -
  let ?m = "\<lparr>MerkleTree.hasher = H, name = nm, depth = D, tree = LazyTree_constructor H D\<rparr>"
  have D: "D \<le> MAX_DEPTH"
    using assms(2) by (simp add: MAX_DEPTH_def)
  have ctor: "MerkleTree_constructor H nm D = Inr ?m"
    using assms(1) D by (rule MerkleTree_constructor_ok)
  have root: "MerkleTree_getRoot ?m = Some (emptySubtree H D 0)"
    by (simp add: MerkleTree_getRoot_def LazyTree_constructor_root)
  have leaf: "emptySubtree H D D = hash H (replicate 64 0)"
    by (simp add: emptySubtree_leaf Buffer_alloc_def LEAF_BYTES_def)
  have node: "\<forall>d<D. emptySubtree H D d
          = compress H (emptySubtree H D (d + 1)) (emptySubtree H D (d + 1))"
    by (simp add: emptySubtree_node)
  have table: "\<forall>d\<le>D. emptyHashes (tree ?m) d = Some (emptySubtree H D d)"
    by (simp add: LazyTree_constructor_eq)
  have ex: "\<exists>m. MerkleTree_constructor H nm D = Inr m
          \<and> MerkleTree_getRoot m = Some (emptySubtree H D 0)
          \<and> (\<forall>d\<le>D. emptyHashes (tree m) d = Some (emptySubtree H D d))"
    using ctor root table by blast
  have opened: "\<forall>db m db'. records db nm = None \<and> MerkleTree_new H db nm (Some D) = (Inr m, db')
          \<longrightarrow> MerkleTree_getRoot m = Some (emptySubtree H D 0)"
  proof (intro allI impI)
    fix db m db'
    assume a: "records db nm = None \<and> MerkleTree_new H db nm (Some D) = (Inr m, db')"
    then obtain e where g: "db_get db nm = (Inl e, snd (next_fault db))"
      using db_get_absent [of db nm] by blast
    have "MerkleTree_constructor H nm D = Inr m"
      using MerkleTree_new_fresh_result [OF g, of H "Some D" m db'] a by simp
    with ctor root show "MerkleTree_getRoot m = Some (emptySubtree H D 0)"
      by simp
  qed
  have usable: "\<forall>db. records db nm = None \<and> faults db = []
          \<longrightarrow> (\<exists>m db'. MerkleTree_new H db nm (Some D) = (Inr m, db'))"
  proof (intro allI impI)
    fix db :: LevelUp
    assume a: "records db nm = None \<and> faults db = []"
    then obtain e where g: "db_get db nm = (Inl e, snd (next_fault db))"
      using db_get_absent [of db nm] by blast
    have inv: "MerkleTree_inv ?m"
      using ctor by (rule MerkleTree_constructor_inv(1))
    obtain data where w: "writeMetaData ?m (snd (next_fault db)) = db_put (snd (next_fault db)) (name ?m) data"
      using writeMetaData_put [OF inv] by blast
    have "faults (snd (next_fault db)) = []"
      using a by (simp add: next_fault_fields)
    then obtain db2 where "db_put (snd (next_fault db)) (name ?m) data = (Inr (), db2)"
      using db_put_no_fault by blast
    with w have "MerkleTree_new H db nm (Some D) = (Inr ?m, db2)"
      unfolding MerkleTree_new_fresh [OF g] by (simp add: ctor)
    then show "\<exists>m db'. MerkleTree_new H db nm (Some D) = (Inr m, db')"
      by blast
  qed
  from leaf node ex opened usable show ?thesis
    by (intro conjI)
qed

theorem fresh_tree_root_is_empty_digest_witness:
  "(1::nat) \<le> 2 \<and> (2::nat) \<le> 32
   \<and> (case fst (MerkleTree_new demo_hasher (demo_store []) ''t'' (Some 2)) of
         Inl e \<Rightarrow> None
       | Inr m \<Rightarrow> MerkleTree_getRoot m) = Some (replicate 32 5)"
proof -
  have d: "(1::nat) \<le> 2" "(2::nat) \<le> 32"
    by simp_all
  have s: "records (demo_store []) ''t'' = None \<and> faults (demo_store []) = []"
    by (simp add: demo_store_def)
  note T = fresh_tree_root_is_empty_digest [OF d, of demo_hasher "''t''"]
  from T have opened: "\<forall>db m db'. records db ''t'' = None
        \<and> MerkleTree_new demo_hasher db ''t'' (Some 2) = (Inr m, db')
          \<longrightarrow> MerkleTree_getRoot m = Some (emptySubtree demo_hasher 2 0)"
    by (elim conjE)
  from T have usable: "\<forall>db. records db ''t'' = None \<and> faults db = []
          \<longrightarrow> (\<exists>m db'. MerkleTree_new demo_hasher db ''t'' (Some 2) = (Inr m, db'))"
    by (elim conjE)
  from usable s obtain m db' where
    n: "MerkleTree_new demo_hasher (demo_store []) ''t'' (Some 2) = (Inr m, db')"
    by blast
  with opened s have "MerkleTree_getRoot m = Some (emptySubtree demo_hasher 2 0)"
    by blast
  then have "(case fst (MerkleTree_new demo_hasher (demo_store []) ''t'' (Some 2)) of
         Inl e \<Rightarrow> None
       | Inr m \<Rightarrow> MerkleTree_getRoot m) = Some (replicate 32 5)"
    by (simp add: n demo_empty)
  with d show ?thesis
    by (intro conjI)
qed

text \<open>
  C2: when the metadata record of the name is read, holds a depth from 1 to 32, the scan
  of the leaf records completes and every numeric key is an index in range, opening
  replays every leaf record into a fresh engine of the stored depth (one \<open>set\<close> per
  record, in scan order) and compares the root of that engine with the first 32 bytes of
  the metadata record: when they are equal the replayed handle is returned, and when they
  differ the open fails with \<open>RootMismatch\<close> and returns no handle.
\<close>

theorem new_restore_compares_roots:
  assumes "db_get db nm = (Inr meta, db1)"
    and "readUInt32LE meta 32 = Inr D" and "1 \<le> D" and "D \<le> 32"
    and "sublevel_createReadStream db1 nm = (Inr es, db2)"
    and "\<forall>(key, v) \<in> set es. \<forall>index. parseInt key = Some index
           \<longrightarrow> 0 \<le> index \<and> index < 2 ^ D"
    and "m0 = \<lparr>MerkleTree.hasher = H, name = nm, depth = D, tree = LazyTree_constructor H D\<rparr>"
    and "m1 = m0\<lparr>tree := set_all (tree m0) (replayed m0 es)\<rparr>"
  shows "MerkleTree_constructor H nm D = Inr m0
    \<and> restoreElements m0 db1 = (Inr m1, db2)
    \<and> (\<exists>r. MerkleTree_getRoot m1 = Some r
          \<and> MerkleTree_new H db nm d
              = (if r = Buffer_slice meta 0 32 then (Inr m1, db2) else (Inl RootMismatch, db2)))"
proof -
  have D: "D \<le> MAX_DEPTH"
    using assms(4) by (simp add: MAX_DEPTH_def)
  have ctor: "MerkleTree_constructor H nm D = Inr m0"
    unfolding assms(7) using assms(3) D by (rule MerkleTree_constructor_ok)
  note k = MerkleTree_constructor_inv [OF ctor]
  have keys: "\<forall>(key, v) \<in> set es. \<forall>index. parseInt key = Some index
           \<longrightarrow> 0 \<le> index \<and> index < 2 ^ MerkleTree.depth m0"
    using assms(6) k(4) by simp
  have rr: "restore_records m0 es = Inr m1"
    unfolding assms(8) using k(1) keys by (rule restore_records_ok)
  have re: "restoreElements m0 db1 = (Inr m1, db2)"
    using assms(5) rr k(3) by (simp add: restoreElements_def)
  have "LazyTree_inv (tree m1)"
    unfolding assms(8) using k(1) by (simp add: set_all_inv MerkleTree_inv_def)
  then obtain r where r: "MerkleTree_getRoot m1 = Some r"
    using LazyTree_getRoot_defined [of "tree m1"] by (auto simp: MerkleTree_getRoot_def)
  have "MerkleTree_new H db nm d
      = (if r = Buffer_slice meta 0 32 then (Inr m1, db2) else (Inl RootMismatch, db2))"
    unfolding MerkleTree_new_restore [OF assms(1)]
    by (simp add: assms(2) ctor re r)
  with r have "\<exists>r. MerkleTree_getRoot m1 = Some r
          \<and> MerkleTree_new H db nm d
              = (if r = Buffer_slice meta 0 32 then (Inr m1, db2) else (Inl RootMismatch, db2))"
    by blast
  with ctor re show ?thesis
    by (intro conjI)
qed

theorem new_restore_compares_roots_witness:
  "db_get (demo_saved (replicate 32 26) [(''1'', toString_hex (replicate 32 7))] []) ''t''
     = (Inr (replicate 32 26 @ [2, 0, 0, 0, 0, 0, 0, 0]),
        demo_saved (replicate 32 26) [(''1'', toString_hex (replicate 32 7))] [])
   \<and> readUInt32LE (replicate 32 26 @ [2, 0, 0, 0, 0, 0, 0, 0]) 32 = Inr 2
   \<and> map_sum id MerkleTree_getRoot
        (fst (MerkleTree_new demo_hasher
           (demo_saved (replicate 32 26) [(''1'', toString_hex (replicate 32 7))] []) ''t'' None))
      = Inr (Some (replicate 32 26))
   \<and> fst (MerkleTree_new demo_hasher (demo_saved (replicate 32 26) [] []) ''t'' None)
      = Inl RootMismatch"
proof -
  let ?es = "[(''1'', toString_hex (replicate 32 7))]"
  let ?M = "replicate 32 26 @ [2, 0, 0, 0, 0, 0, 0, 0] :: Buffer"
  let ?m1 = "demo_tree\<lparr>tree := set_all (tree demo_tree) (replayed demo_tree ?es)\<rparr>"
  let ?m2 = "demo_tree\<lparr>tree := set_all (tree demo_tree) (replayed demo_tree [])\<rparr>"
  have d: "(1::nat) \<le> 2" "(2::nat) \<le> 32"
    by simp_all
  have keys: "\<forall>(key, v) \<in> set ?es. \<forall>index. parseInt key = Some index
           \<longrightarrow> 0 \<le> index \<and> index < 2 ^ 2"
    by (simp add: parseInt_1)
  have nokeys: "\<forall>(key, v) \<in> set ([] :: (string \<times> string) list). \<forall>index. parseInt key = Some index
           \<longrightarrow> 0 \<le> index \<and> index < 2 ^ 2"
    by simp
  have m0: "demo_tree = \<lparr>MerkleTree.hasher = demo_hasher, name = ''t'', depth = 2,
      tree = LazyTree_constructor demo_hasher 2\<rparr>"
    by (rule demo_tree_def)
  note A = new_restore_compares_roots [where d = None,
      OF demo_saved_get demo_meta_depth d demo_saved_scan keys m0 refl]
  note B = new_restore_compares_roots [where d = None,
      OF demo_saved_get demo_meta_depth d demo_saved_scan nokeys m0 refl]
  from A obtain r where r: "MerkleTree_getRoot ?m1 = Some r"
    and n: "MerkleTree_new demo_hasher (demo_saved (replicate 32 26) ?es []) ''t'' None
      = (if r = Buffer_slice ?M 0 32 then (Inr ?m1, demo_saved (replicate 32 26) ?es [])
         else (Inl RootMismatch, demo_saved (replicate 32 26) ?es []))"
    by blast
  from r demo_replayed_root have "r = replicate 32 26"
    by simp
  with n r have usable: "map_sum id MerkleTree_getRoot
        (fst (MerkleTree_new demo_hasher (demo_saved (replicate 32 26) ?es []) ''t'' None))
      = Inr (Some (replicate 32 26))"
    by (simp add: demo_meta_root)
  from B obtain r' where r': "MerkleTree_getRoot ?m2 = Some r'"
    and n': "MerkleTree_new demo_hasher (demo_saved (replicate 32 26) [] []) ''t'' None
      = (if r' = Buffer_slice ?M 0 32 then (Inr ?m2, demo_saved (replicate 32 26) [] [])
         else (Inl RootMismatch, demo_saved (replicate 32 26) [] []))"
    by blast
  have "?m2 = demo_tree"
    by (simp add: replayed_def map_filter_simps demo_tree_def)
  with r' have "r' = replicate 32 5"
    by (simp add: demo_tree_root)
  with n' have mismatch: "fst (MerkleTree_new demo_hasher (demo_saved (replicate 32 26) [] []) ''t'' None)
      = Inl RootMismatch"
    by (simp add: demo_meta_root)
  from demo_saved_get [of "replicate 32 26" ?es] demo_meta_depth [of 26] usable mismatch
  show ?thesis
    by (intro conjI)
qed

text \<open>
  C8: when the metadata record of the name is read at open time, the outcome of the open
  does not depend on the depth the caller asks for, and a returned handle and its engine
  have the depth decoded from the stored metadata.
\<close>

theorem new_builds_stored_depth:
  assumes "db_get db nm = (Inr meta, db1)"
  shows "MerkleTree_new H db nm requested = MerkleTree_new H db nm None
    \<and> (\<forall>m db'. MerkleTree_new H db nm requested = (Inr m, db')
          \<longrightarrow> readUInt32LE meta 32 = Inr (MerkleTree.depth m)
              \<and> LazyTree.depth (tree m) = MerkleTree.depth m)"
proof -
  have indep: "MerkleTree_new H db nm requested = MerkleTree_new H db nm None"
    by (simp add: MerkleTree_new_restore [OF assms])
  have stored: "\<forall>m db'. MerkleTree_new H db nm requested = (Inr m, db')
          \<longrightarrow> readUInt32LE meta 32 = Inr (MerkleTree.depth m)
              \<and> LazyTree.depth (tree m) = MerkleTree.depth m"
    using MerkleTree_new_restore_depth(1,2) [OF assms] by blast
  from indep stored show ?thesis
    by (intro conjI)
qed

theorem new_builds_stored_depth_witness:
  "db_get (demo_saved (replicate 32 5) [] []) ''t''
     = (Inr (replicate 32 5 @ [2, 0, 0, 0, 0, 0, 0, 0]), demo_saved (replicate 32 5) [] [])
   \<and> MerkleTree_new demo_hasher (demo_saved (replicate 32 5) [] []) ''t'' (Some 7)
     = MerkleTree_new demo_hasher (demo_saved (replicate 32 5) [] []) ''t'' None
   \<and> map_sum id MerkleTree.depth
        (fst (MerkleTree_new demo_hasher (demo_saved (replicate 32 5) [] []) ''t'' (Some 7)))
      = Inr 2"
proof -
  note T = new_builds_stored_depth [OF demo_saved_get, of demo_hasher "replicate 32 5" "[]" "Some 7"]
  from T have same: "MerkleTree_new demo_hasher (demo_saved (replicate 32 5) [] []) ''t'' (Some 7)
     = MerkleTree_new demo_hasher (demo_saved (replicate 32 5) [] []) ''t'' None"
    by (elim conjE)
  from T have "\<forall>m db'. MerkleTree_new demo_hasher (demo_saved (replicate 32 5) [] []) ''t'' (Some 7)
        = (Inr m, db')
      \<longrightarrow> readUInt32LE (replicate 32 5 @ [2, 0, 0, 0, 0, 0, 0, 0]) 32 = Inr (MerkleTree.depth m)
          \<and> LazyTree.depth (tree m) = MerkleTree.depth m"
    by (elim conjE)
  then have "readUInt32LE (replicate 32 5 @ [2, 0, 0, 0, 0, 0, 0, 0]) 32
      = Inr (MerkleTree.depth demo_tree)"
    using demo_reopen [of "Some 7"] by blast
  then have "MerkleTree.depth demo_tree = 2"
    by (simp add: demo_meta_depth)
  then have dep: "map_sum id MerkleTree.depth
        (fst (MerkleTree_new demo_hasher (demo_saved (replicate 32 5) [] []) ''t'' (Some 7)))
      = Inr 2"
    by (simp add: demo_reopen)
  from demo_saved_get [of "replicate 32 5" "[]"] same dep show ?thesis
    by (intro conjI)
qed

text \<open>
  C9: when \<open>MerkleTree.new\<close> is called without a depth and the store holds no metadata
  record for the name, the open behaves as with the depth 32, a returned handle and its
  engine have depth 32, which is \<open>MAX_DEPTH\<close>, and the open succeeds when the store
  does not fail.
\<close>

theorem new_default_depth:
  assumes "records db nm = None"
  shows "MerkleTree_new H db nm None = MerkleTree_new H db nm (Some 32)
    \<and> (\<forall>m db'. MerkleTree_new H db nm None = (Inr m, db')
          \<longrightarrow> MerkleTree.depth m = 32 \<and> LazyTree.depth (tree m) = 32
              \<and> MerkleTree.depth m = MAX_DEPTH)
    \<and> (faults db = [] \<longrightarrow> (\<exists>m db'. MerkleTree_new H db nm None = (Inr m, db')))"
proof -
  obtain e where g: "db_get db nm = (Inl e, snd (next_fault db))"
    using db_get_absent [OF assms] by blast
  let ?m = "\<lparr>MerkleTree.hasher = H, name = nm, depth = 32, tree = LazyTree_constructor H 32\<rparr>"
  have ctor: "MerkleTree_constructor H nm 32 = Inr ?m"
    by (rule MerkleTree_constructor_ok) (simp_all add: MAX_DEPTH_def)
  have same: "MerkleTree_new H db nm None = MerkleTree_new H db nm (Some 32)"
    by (simp add: MerkleTree_new_fresh [OF g] MAX_DEPTH_def)
  have dep: "\<forall>m db'. MerkleTree_new H db nm None = (Inr m, db')
          \<longrightarrow> MerkleTree.depth m = 32 \<and> LazyTree.depth (tree m) = 32
              \<and> MerkleTree.depth m = MAX_DEPTH"
  proof (intro allI impI)
    fix m db'
    assume "MerkleTree_new H db nm None = (Inr m, db')"
    from MerkleTree_new_fresh_result [OF g this] have "MerkleTree_constructor H nm 32 = Inr m"
      by (simp add: MAX_DEPTH_def)
    with ctor have "m = ?m" by simp
    then show "MerkleTree.depth m = 32 \<and> LazyTree.depth (tree m) = 32
              \<and> MerkleTree.depth m = MAX_DEPTH"
      by (simp add: MAX_DEPTH_def)
  qed
  have ok: "faults db = [] \<longrightarrow> (\<exists>m db'. MerkleTree_new H db nm None = (Inr m, db'))"
  proof
    assume a: "faults db = []"
    have inv: "MerkleTree_inv ?m"
      using ctor by (rule MerkleTree_constructor_inv(1))
    obtain data where w: "writeMetaData ?m (snd (next_fault db)) = db_put (snd (next_fault db)) (name ?m) data"
      using writeMetaData_put [OF inv] by blast
    have "faults (snd (next_fault db)) = []"
      using a by (simp add: next_fault_fields)
    then obtain db2 where "db_put (snd (next_fault db)) (name ?m) data = (Inr (), db2)"
      using db_put_no_fault by blast
    with w have "MerkleTree_new H db nm None = (Inr ?m, db2)"
      unfolding MerkleTree_new_fresh [OF g] using ctor by (simp add: MAX_DEPTH_def)
    then show "\<exists>m db'. MerkleTree_new H db nm None = (Inr m, db')"
      by blast
  qed
  from same dep ok show ?thesis
    by (intro conjI)
qed

theorem new_default_depth_witness:
  "records (demo_store []) ''t'' = None
   \<and> map_sum id MerkleTree.depth (fst (MerkleTree_new demo_hasher (demo_store []) ''t'' None))
      = Inr 32"
proof -
  have absent: "records (demo_store []) ''t'' = None" and nofault: "faults (demo_store []) = []"
    by (simp_all add: demo_store_def)
  note T = new_default_depth [OF absent, of demo_hasher]
  from T have "faults (demo_store []) = []
      \<longrightarrow> (\<exists>m db'. MerkleTree_new demo_hasher (demo_store []) ''t'' None = (Inr m, db'))"
    by (elim conjE)
  with nofault obtain m db' where
    n: "MerkleTree_new demo_hasher (demo_store []) ''t'' None = (Inr m, db')"
    by blast
  from T have "\<forall>m db'. MerkleTree_new demo_hasher (demo_store []) ''t'' None = (Inr m, db')
          \<longrightarrow> MerkleTree.depth m = 32 \<and> LazyTree.depth (tree m) = 32
              \<and> MerkleTree.depth m = MAX_DEPTH"
    by (elim conjE)
  with n have "MerkleTree.depth m = 32"
    by blast
  with n have "map_sum id MerkleTree.depth (fst (MerkleTree_new demo_hasher (demo_store []) ''t'' None))
      = Inr 32"
    by simp
  with absent show ?thesis
    by (intro conjI)
qed

text \<open>
  C4 as stated does not hold: the handler on the metadata \<open>get\<close> of
  \<open>MerkleTree.new\<close> catches every rejection. On the store of an existing tree whose
  \<open>get\<close> fails with the I/O error \<open>EIO\<close>, the open does not fail: it returns a fresh
  handle.
\<close>

theorem get_failure_is_masked_counterexample:
  "fst (db_get (demo_saved (replicate 32 26) [(''1'', toString_hex (replicate 32 7))] [Some ''EIO''])
        ''t'') = Inl (StoreError ''EIO'')
   \<and> fst (MerkleTree_new demo_hasher
        (demo_saved (replicate 32 26) [(''1'', toString_hex (replicate 32 7))] [Some ''EIO''])
        ''t'' (Some 2)) = Inr demo_tree"
proof -
  let ?es = "[(''1'', toString_hex (replicate 32 7))]"
  let ?db = "demo_saved (replicate 32 26) ?es [Some ''EIO'']"
  let ?db1 = "demo_saved (replicate 32 26) ?es []"
  have g: "db_get ?db ''t'' = (Inl (StoreError ''EIO''), ?db1)"
    by (rule demo_saved_get_fault)
  have ctor: "MerkleTree_constructor demo_hasher ''t'' 2 = Inr demo_tree"
    unfolding demo_tree_eq [symmetric]
    by (rule MerkleTree_constructor_ok) (simp_all add: MAX_DEPTH_def)
  obtain data where w: "writeMetaData demo_tree ?db1 = db_put ?db1 (name demo_tree) data"
    using writeMetaData_put [OF demo_tree_inv] by blast
  obtain db2 where "db_put ?db1 (name demo_tree) data = (Inr (), db2)"
    using db_put_no_fault [of ?db1] by auto
  with w have "MerkleTree_new demo_hasher ?db ''t'' (Some 2) = (Inr demo_tree, db2)"
    unfolding MerkleTree_new_fresh [OF g] by (simp add: ctor)
  with g show ?thesis
    by simp
qed

text \<open>
  C4, amended: a failure of the restore scan, of the first write of the metadata or of
  either write of \<open>updateElement\<close> is returned to the caller as the store error it is,
  which is neither \<open>BadDepth\<close> nor \<open>RootMismatch\<close>. A failure of the metadata
  \<open>get\<close> at open time is not returned: whatever the failure is, the open goes on as it
  does for an absent record.
\<close>

theorem put_and_scan_failures_propagate:
  "(\<forall>meta db1 D msg fs. db_get db nm = (Inr meta, db1) \<and> readUInt32LE meta 32 = Inr D
        \<and> 1 \<le> D \<and> D \<le> 32 \<and> faults db1 = Some msg # fs
      \<longrightarrow> fst (MerkleTree_new H db nm d) = Inl (StoreError msg))
   \<and> (\<forall>e db1 msg fs. db_get db nm = (Inl e, db1) \<and> 1 \<le> dep \<and> dep \<le> 32
        \<and> faults db1 = Some msg # fs
      \<longrightarrow> fst (MerkleTree_new H db nm (Some dep)) = Inl (StoreError msg))
   \<and> (\<forall>msg fs. MerkleTree_inv m \<and> 0 \<le> i \<and> i < 2 ^ MerkleTree.depth m
        \<and> (faults dbu = Some msg # fs \<or> faults dbu = None # Some msg # fs)
      \<longrightarrow> fst (updateElement m dbu i v) = Inl (StoreError msg))
   \<and> (\<forall>msg. StoreError msg \<noteq> BadDepth \<and> StoreError msg \<noteq> RootMismatch)
   \<and> (\<forall>e e' dbx db1. db_get db nm = (Inl e, db1) \<and> db_get dbx nm = (Inl e', db1)
      \<longrightarrow> MerkleTree_new H db nm d = MerkleTree_new H dbx nm d)"
proof (intro conjI allI impI)
  fix meta db1 D msg fs
  assume "db_get db nm = (Inr meta, db1) \<and> readUInt32LE meta 32 = Inr D
        \<and> 1 \<le> D \<and> D \<le> 32 \<and> faults db1 = Some msg # fs"
  then show "fst (MerkleTree_new H db nm d) = Inl (StoreError msg)"
    using MerkleTree_new_scan_failure [of db nm meta db1 D msg fs H d] by blast
next
  fix e db1 msg fs
  assume "db_get db nm = (Inl e, db1) \<and> 1 \<le> dep \<and> dep \<le> 32 \<and> faults db1 = Some msg # fs"
  then show "fst (MerkleTree_new H db nm (Some dep)) = Inl (StoreError msg)"
    using MerkleTree_new_put_failure [of db nm e db1 dep msg fs H] by blast
next
  fix msg fs
  assume "MerkleTree_inv m \<and> 0 \<le> i \<and> i < 2 ^ MerkleTree.depth m
        \<and> (faults dbu = Some msg # fs \<or> faults dbu = None # Some msg # fs)"
  then show "fst (updateElement m dbu i v) = Inl (StoreError msg)"
    using updateElement_put_failure [of m i dbu msg fs v] by blast
next
  fix e e' dbx db1
  assume "db_get db nm = (Inl e, db1) \<and> db_get dbx nm = (Inl e', db1)"
  then show "MerkleTree_new H db nm d = MerkleTree_new H dbx nm d"
    using MerkleTree_new_fresh [of db nm e db1 H d] MerkleTree_new_fresh [of dbx nm e' db1 H d]
    by simp
qed simp_all

theorem put_and_scan_failures_propagate_witness:
  "db_get (demo_saved (replicate 32 5) [] [None, Some ''EIO'']) ''t''
     = (Inr (replicate 32 5 @ [2, 0, 0, 0, 0, 0, 0, 0]), demo_saved (replicate 32 5) [] [Some ''EIO''])
   \<and> fst (MerkleTree_new demo_hasher (demo_saved (replicate 32 5) [] [None, Some ''EIO'']) ''t'' None)
      = Inl (StoreError ''EIO'')
   \<and> MerkleTree_inv demo_tree \<and> (0::int) \<le> 1 \<and> (1::int) < 2 ^ MerkleTree.depth demo_tree
   \<and> fst (updateElement demo_tree (demo_store [None, Some ''EIO'']) 1 (demo_payload 7))
      = Inl (StoreError ''EIO'')"
proof -
  let ?db = "demo_saved (replicate 32 5) [] [None, Some ''EIO'']"
  let ?db1 = "demo_saved (replicate 32 5) [] [Some ''EIO'']"
  let ?M = "replicate 32 5 @ [2, 0, 0, 0, 0, 0, 0, 0] :: Buffer"
  have g: "db_get ?db ''t'' = (Inr ?M, ?db1)"
    by (rule demo_saved_get_after)
  have rng: "(0::int) \<le> 1" "(1::int) < 2 ^ MerkleTree.depth demo_tree"
    by simp_all
  note T = put_and_scan_failures_propagate [of ?db "''t''" demo_hasher None 2 demo_tree 1
      "demo_store [None, Some ''EIO'']" "demo_payload 7"]
  from T have "\<forall>meta db1 D msg fs. db_get ?db ''t'' = (Inr meta, db1) \<and> readUInt32LE meta 32 = Inr D
        \<and> 1 \<le> D \<and> D \<le> 32 \<and> faults db1 = Some msg # fs
      \<longrightarrow> fst (MerkleTree_new demo_hasher ?db ''t'' None) = Inl (StoreError msg)"
    by (elim conjE)
  then have "db_get ?db ''t'' = (Inr ?M, ?db1) \<and> readUInt32LE ?M 32 = Inr 2
        \<and> (1::nat) \<le> 2 \<and> (2::nat) \<le> 32 \<and> faults ?db1 = Some ''EIO'' # []
      \<longrightarrow> fst (MerkleTree_new demo_hasher ?db ''t'' None) = Inl (StoreError ''EIO'')"
    by blast
  then have scan: "fst (MerkleTree_new demo_hasher ?db ''t'' None) = Inl (StoreError ''EIO'')"
    using g by (simp add: demo_meta_depth)
  from T have "\<forall>msg fs. MerkleTree_inv demo_tree \<and> 0 \<le> (1::int) \<and> (1::int) < 2 ^ MerkleTree.depth demo_tree
        \<and> (faults (demo_store [None, Some ''EIO'']) = Some msg # fs
            \<or> faults (demo_store [None, Some ''EIO'']) = None # Some msg # fs)
      \<longrightarrow> fst (updateElement demo_tree (demo_store [None, Some ''EIO'']) 1 (demo_payload 7))
          = Inl (StoreError msg)"
    by (elim conjE)
  then have "MerkleTree_inv demo_tree \<and> 0 \<le> (1::int) \<and> (1::int) < 2 ^ MerkleTree.depth demo_tree
        \<and> (faults (demo_store [None, Some ''EIO'']) = Some ''EIO'' # []
            \<or> faults (demo_store [None, Some ''EIO'']) = None # Some ''EIO'' # [])
      \<longrightarrow> fst (updateElement demo_tree (demo_store [None, Some ''EIO'']) 1 (demo_payload 7))
          = Inl (StoreError ''EIO'')"
    by blast
  then have put: "fst (updateElement demo_tree (demo_store [None, Some ''EIO'']) 1 (demo_payload 7))
          = Inl (StoreError ''EIO'')"
    using demo_tree_inv by (simp add: demo_store_def)
  from g scan demo_tree_inv rng put show ?thesis
    by (intro conjI)
qed

end
